theory Spec2Isabelle
  imports Main "HOL-Library.AList"
begin

section \<open>Errors, file system and world state\<close>

text \<open>
  A thrown JavaScript value is modelled as an \<open>Error\<close> object: an optional
  \<open>code\<close> property (set by Node for failed system calls, for example
  \<open>ENOENT\<close>) and a message.  Every \<open>throw\<close> and every rejected promise of
  the source is the \<open>Inl\<close> branch of a result.
\<close>

datatype error = Error (code: "string option") (message: string)

type_synonym path = string

text \<open>
  The error Node raises for a failed system call: the errno name as \<open>code\<close>, and
  a message naming the call and its path.
\<close>

definition system_error :: "string \<Rightarrow> string \<Rightarrow> path \<Rightarrow> error" where
  "system_error errno syscall p = Error (Some errno) (errno @ '': '' @ syscall @ '' '' @ p)"

text \<open>
  The file system is a finite table from path strings to nodes: a regular file with its
  size in bytes, or a directory (with the size \<open>stat\<close> reports for it).  A file has
  one name: paths are compared as strings.  The outcome of an operation is the one
  POSIX gives from the table entries at the paths involved; permissions, links and
  device errors are outside the model.
\<close>

datatype node = File (node_size: nat) | Dir (node_size: nat)

type_synonym filesystem = "(path \<times> node) list"

definition lookup :: "filesystem \<Rightarrow> path \<Rightarrow> node option" where
  "lookup files p = map_of files p"

text \<open>\<open>under d p\<close>: the path \<open>p\<close> lies strictly below the directory path \<open>d\<close>.\<close>

definition under :: "path \<Rightarrow> path \<Rightarrow> bool" where
  "under d p = (length d + 1 < length p \<and> take (length d + 1) p = d @ ''/'')"

text \<open>The entry names of directory \<open>d\<close>: the paths \<open>d/name\<close> with no further separator.\<close>

definition entries :: "filesystem \<Rightarrow> path \<Rightarrow> string list" where
  "entries files d =
     remdups (map (\<lambda>(p, n). drop (length d + 1) p)
       (filter (\<lambda>(p, n). under d p \<and> CHR ''/'' \<notin> set (drop (length d + 1) p)) files))"

text \<open>Moving the subtree of a renamed directory: every path below \<open>src\<close> is re-rooted at \<open>dst\<close>.\<close>

definition reroot :: "path \<Rightarrow> path \<Rightarrow> path \<Rightarrow> path" where
  "reroot src dst p = (if p = src \<or> under src p then dst @ drop (length src) p else p)"

section \<open>The world and the operations on it\<close>

text \<open>
  A call made by the pipeline, in the order it was made: the calls to the external
  collaborators (converter, dump manager, dependency manager), the file-system calls,
  the log lines and the lock operations.  The trace is ghost state: it records what
  the modelled code did and takes no part in what it computes.
\<close>

record lsif_dump =
  dumpId :: nat
  dumpRepository :: string
  dumpCommit :: string
  dumpRoot :: string

type_synonym commit_map = "(string \<times> string set) list"

datatype event =
    ConvertLsif path path
  | DeleteOverlappingDumps string string string
  | AddPackagesAndReferences nat
  | Rename path path
  | Unlink path
  | Stat path
  | Readdir path
  | LogInfo string
  | LogWarn string
  | DiscoverTip string
  | DiscoverCommits string string
  | UpdateCommits string commit_map
  | UpdateDumpsVisibleFromTip string string
  | GetOldestPrunableDump
  | DeleteDump lsif_dump
  | LockAcquire string
  | LockRelease string

text \<open>
  The world: the file system, the state of the external stores (Postgres and the git
  servers, of a type the pipeline never inspects), the advisory locks currently held,
  and the trace.
\<close>

record 's world =
  files :: filesystem
  store :: 's
  locks :: "string set"
  trace :: "event list"

text \<open>
  An asynchronous operation takes the world and gives a result (an error or a value)
  and the world after it.  \<open>await\<close> is sequential composition.
\<close>

type_synonym ('s, 'a) prog = "'s world \<Rightarrow> (error + 'a) \<times> 's world"

definition return :: "'a \<Rightarrow> ('s, 'a) prog" where
  "return x w = (Inr x, w)"

definition throw :: "error \<Rightarrow> ('s, 'a) prog" where
  "throw e w = (Inl e, w)"

definition await :: "('s, 'a) prog \<Rightarrow> ('a \<Rightarrow> ('s, 'b) prog) \<Rightarrow> ('s, 'b) prog" where
  "await m f w = (case m w of (Inl e, w') \<Rightarrow> (Inl e, w') | (Inr x, w') \<Rightarrow> f x w')"

definition try_catch :: "('s, 'a) prog \<Rightarrow> (error \<Rightarrow> ('s, 'a) prog) \<Rightarrow> ('s, 'a) prog" where
  "try_catch m h w = (case m w of (Inl e, w') \<Rightarrow> h e w' | (Inr x, w') \<Rightarrow> (Inr x, w'))"

text \<open>
  A call to an external collaborator: the collaborator's function runs on the world,
  and the call is appended to the trace as it stood before the call (whatever the
  collaborator did, it cannot rewrite the history).
\<close>

definition external :: "event \<Rightarrow> ('s, 'a) prog \<Rightarrow> ('s, 'a) prog" where
  "external ev f w = (case f w of (r, w') \<Rightarrow> (r, w'\<lparr>trace := trace w @ [ev]\<rparr>))"

text \<open>
  A log line: a call to the logger of the tracing context, which is taken to return
  and not to throw.  The line goes to the trace.
\<close>

definition emit :: "event \<Rightarrow> ('s, unit) prog" where
  "emit ev w = (Inr (), w\<lparr>trace := trace w @ [ev]\<rparr>)"

subsection \<open>Node's \<open>fs\<close> calls\<close>

definition fs_stat :: "path \<Rightarrow> ('s, nat) prog" where
  "fs_stat p w =
     (case lookup (files w) p of
        None \<Rightarrow> (Inl (system_error ''ENOENT'' ''stat'' p), w\<lparr>trace := trace w @ [Stat p]\<rparr>)
      | Some n \<Rightarrow> (Inr (node_size n), w\<lparr>trace := trace w @ [Stat p]\<rparr>))"

definition fs_readdir :: "path \<Rightarrow> ('s, string list) prog" where
  "fs_readdir d w =
     (case lookup (files w) d of
        None \<Rightarrow> (Inl (system_error ''ENOENT'' ''scandir'' d), w\<lparr>trace := trace w @ [Readdir d]\<rparr>)
      | Some (File _) \<Rightarrow>
          (Inl (system_error ''ENOTDIR'' ''scandir'' d), w\<lparr>trace := trace w @ [Readdir d]\<rparr>)
      | Some (Dir _) \<Rightarrow> (Inr (entries (files w) d), w\<lparr>trace := trace w @ [Readdir d]\<rparr>))"

definition fs_unlink :: "path \<Rightarrow> ('s, unit) prog" where
  "fs_unlink p w =
     (case lookup (files w) p of
        None \<Rightarrow> (Inl (system_error ''ENOENT'' ''unlink'' p), w\<lparr>trace := trace w @ [Unlink p]\<rparr>)
      | Some (Dir _) \<Rightarrow>
          (Inl (system_error ''EISDIR'' ''unlink'' p), w\<lparr>trace := trace w @ [Unlink p]\<rparr>)
      | Some (File _) \<Rightarrow>
          (Inr (), w\<lparr>files := AList.delete p (files w), trace := trace w @ [Unlink p]\<rparr>))"

definition fs_rename :: "path \<Rightarrow> path \<Rightarrow> ('s, unit) prog" where
  "fs_rename src dst w =
     (let w' = w\<lparr>trace := trace w @ [Rename src dst]\<rparr> in
      case lookup (files w) src of
        None \<Rightarrow> (Inl (system_error ''ENOENT'' ''rename'' src), w')
      | Some (File n) \<Rightarrow>
          (case lookup (files w) dst of
             Some (Dir _) \<Rightarrow> (Inl (system_error ''EISDIR'' ''rename'' src), w')
           | _ \<Rightarrow> (Inr (), w'\<lparr>files := AList.update dst (File n) (AList.delete src (files w))\<rparr>))
      | Some (Dir n) \<Rightarrow>
          (if src = dst then (Inr (), w')
           else if under src dst then (Inl (system_error ''EINVAL'' ''rename'' src), w')
           else case lookup (files w) dst of
             Some (File _) \<Rightarrow> (Inl (system_error ''ENOTDIR'' ''rename'' src), w')
           | Some (Dir _) \<Rightarrow>
               (if \<exists>(p, n) \<in> set (files w). under dst p
                then (Inl (system_error ''ENOTEMPTY'' ''rename'' src), w')
                else (Inr (), w'\<lparr>files := map (\<lambda>(p, n). (reroot src dst p, n))
                                         (AList.delete dst (files w))\<rparr>))
           | None \<Rightarrow>
               (Inr (), w'\<lparr>files := map (\<lambda>(p, n). (reroot src dst p, n)) (files w)\<rparr>)))"

subsection \<open>Node's \<open>path\<close> module (POSIX flavour)\<close>

fun split_slash :: "string \<Rightarrow> string list" where
  "split_slash [] = [[]]"
| "split_slash (c # cs) =
     (if c = CHR ''/'' then [] # split_slash cs
      else (case split_slash cs of [] \<Rightarrow> [[c]] | s # ss \<Rightarrow> (c # s) # ss))"

fun join_slash :: "string list \<Rightarrow> string" where
  "join_slash [] = []"
| "join_slash [s] = s"
| "join_slash (s # t # ss) = s @ ''/'' @ join_slash (t # ss)"

text \<open>
  \<open>normalize_segments allowAboveRoot res segs\<close> resolves the segments left to right
  onto the segments \<open>res\<close> kept so far: empty and \<open>.\<close> segments vanish, \<open>..\<close>
  removes the last kept segment, or is kept itself when there is none to remove and
  the path is relative.
\<close>

fun normalize_segments :: "bool \<Rightarrow> string list \<Rightarrow> string list \<Rightarrow> string list" where
  "normalize_segments allowAboveRoot res [] = res"
| "normalize_segments allowAboveRoot res (s # ss) =
     (if s = [] \<or> s = ''.'' then normalize_segments allowAboveRoot res ss
      else if s = ''..'' then
        (if res \<noteq> [] \<and> last res \<noteq> ''..''
         then normalize_segments allowAboveRoot (butlast res) ss
         else if allowAboveRoot then normalize_segments allowAboveRoot (res @ [''..'']) ss
         else normalize_segments allowAboveRoot res ss)
      else normalize_segments allowAboveRoot (res @ [s]) ss)"

definition path_normalize :: "string \<Rightarrow> string" where
  "path_normalize p =
     (if p = [] then ''.''
      else
        let isAbsolute = (hd p = CHR ''/'');
            trailingSeparator = (last p = CHR ''/'');
            body = join_slash (normalize_segments (\<not> isAbsolute) [] (split_slash p))
        in if body = [] then (if isAbsolute then ''/'' else if trailingSeparator then ''./'' else ''.'')
           else (if isAbsolute then ''/'' else []) @ body @ (if trailingSeparator then ''/'' else []))"

definition path_join :: "string list \<Rightarrow> string" where
  "path_join args =
     (let joined = join_slash (filter (\<lambda>a. a \<noteq> []) args)
      in if joined = [] then ''.'' else path_normalize joined)"

definition path_basename :: "string \<Rightarrow> string" where
  "path_basename p =
     (case filter (\<lambda>s. s \<noteq> []) (split_slash p) of [] \<Rightarrow> [] | s # ss \<Rightarrow> last (s # ss))"

section \<open>The collaborators\<close>

text \<open>
  The converter, the dump manager, the dependency manager, the settings and the
  constants are imported by the module and are parameters here.  Each collaborator
  function is an arbitrary operation on the world: it may change the file system and
  the stores, and it returns a value or fails with any error.  The packages and
  references the converter extracts are opaque to the pipeline.  The entity manager,
  the connection and the tracing context are handles on the stores and the logger;
  they are passed through by the source and are left out here.
\<close>

typedecl package
typedecl reference

record lsif_upload =
  uploadId :: nat
  repository :: string
  commit :: string
  root :: string
  filename :: path

record 's env =
  STORAGE_ROOT :: string
  DBS_DIR_MAXIMUM_SIZE_BYTES :: int
  TEMP_DIR :: string
  DBS_DIR :: string
  dbFilename :: "string \<Rightarrow> nat \<Rightarrow> string \<Rightarrow> string \<Rightarrow> path"
  convertLsif :: "path \<Rightarrow> path \<Rightarrow> ('s, package list \<times> reference list) prog"
  deleteOverlappingDumps :: "string \<Rightarrow> string \<Rightarrow> string \<Rightarrow> ('s, unit) prog"
  addPackagesAndReferences :: "nat \<Rightarrow> package list \<Rightarrow> reference list \<Rightarrow> ('s, unit) prog"
  discoverTip :: "string \<Rightarrow> string list \<Rightarrow> ('s, string option) prog"
  discoverCommits :: "string \<Rightarrow> string \<Rightarrow> string list \<Rightarrow> ('s, commit_map) prog"
  updateCommits :: "string \<Rightarrow> commit_map \<Rightarrow> ('s, unit) prog"
  updateDumpsVisibleFromTip :: "string \<Rightarrow> string \<Rightarrow> ('s, unit) prog"
  getOldestPrunableDump :: "('s, lsif_dump option) prog"
  deleteDump :: "lsif_dump \<Rightarrow> ('s, unit) prog"

section \<open>The conversion orchestrator\<close>

definition tempFile :: "'s env \<Rightarrow> lsif_upload \<Rightarrow> path" where
  "tempFile env upload = path_join [STORAGE_ROOT env, TEMP_DIR env, path_basename (filename upload)]"

text \<open>The body of the \<open>try\<close> block of \<open>convertDatabase\<close>.\<close>

definition convertDatabase_try :: "'s env \<Rightarrow> lsif_upload \<Rightarrow> ('s, unit) prog" where
  "convertDatabase_try env upload =
     await (external (ConvertLsif (filename upload) (tempFile env upload))
              (convertLsif env (filename upload) (tempFile env upload)))
       (\<lambda>(packages, references).
     await (external (DeleteOverlappingDumps (repository upload) (commit upload) (root upload))
              (deleteOverlappingDumps env (repository upload) (commit upload) (root upload)))
       (\<lambda>_.
     await (external (AddPackagesAndReferences (uploadId upload))
              (addPackagesAndReferences env (uploadId upload) packages references))
       (\<lambda>_.
     await (fs_rename (tempFile env upload)
              (dbFilename env (STORAGE_ROOT env) (uploadId upload) (repository upload) (commit upload)))
       (\<lambda>_.
     emit (LogInfo ''Created dump'')))))"

definition convertDatabase :: "'s env \<Rightarrow> lsif_upload \<Rightarrow> ('s, unit) prog" where
  "convertDatabase env upload =
     await (try_catch (convertDatabase_try env upload)
              (\<lambda>error. await (fs_unlink (tempFile env upload)) (\<lambda>_. throw error)))
       (\<lambda>_. fs_unlink (filename upload))"

section \<open>The visibility updater\<close>

text \<open>
  A commit-graph fragment is a JavaScript \<open>Map\<close> from a commit to the \<open>Set\<close> of
  its parents: an association list in insertion order, whose keys are distinct.
  \<open>Map.get\<close> is \<open>map_of\<close>; \<open>Map.set\<close> replaces the value of a key that is
  present, in place, and appends a key that is not, which is \<open>AList.update\<close>.
\<close>

text \<open>
  The loop \<open>for (const [k, v] of tipCommits.entries()) commits.set(k, ...)\<close>, over the
  entries still to visit.
\<close>

fun merge_commits :: "commit_map \<Rightarrow> commit_map \<Rightarrow> commit_map" where
  "merge_commits [] commits = commits"
| "merge_commits ((k, v) # tipCommits) commits =
     merge_commits tipCommits
       (AList.update k ((case map_of commits k of None \<Rightarrow> {} | Some ps \<Rightarrow> ps) \<union> v) commits)"

definition no_tip_error :: error where
  "no_tip_error = Error None ''No tip commit available for repository''"

definition updateCommitsAndDumpsVisibleFromTip ::
  "'s env \<Rightarrow> ('s world \<Rightarrow> string list) \<Rightarrow> lsif_upload \<Rightarrow> ('s, unit) prog" where
  "updateCommitsAndDumpsVisibleFromTip env fetchConfiguration upload w =
     (let gitserverUrls = fetchConfiguration w in
      await (external (DiscoverTip (repository upload))
               (discoverTip env (repository upload) gitserverUrls))
        (\<lambda>tipCommit. case tipCommit of
           None \<Rightarrow> throw no_tip_error
         | Some tip \<Rightarrow>
      await (external (DiscoverCommits (repository upload) (commit upload))
               (discoverCommits env (repository upload) (commit upload) gitserverUrls))
        (\<lambda>commits.
      await (if tip \<noteq> commit upload
             then await (external (DiscoverCommits (repository upload) tip)
                           (discoverCommits env (repository upload) tip gitserverUrls))
                    (\<lambda>tipCommits. return (merge_commits tipCommits commits))
             else return commits)
        (\<lambda>commits.
      await (external (UpdateCommits (repository upload) commits)
               (updateCommits env (repository upload) commits))
        (\<lambda>_.
      external (UpdateDumpsVisibleFromTip (repository upload) tip)
        (updateDumpsVisibleFromTip env (repository upload) tip))))) w)"

section \<open>The retention enforcer\<close>

text \<open>
  Sizes and the quota are JavaScript numbers holding whole numbers of bytes; they are
  integers here, and the running total may become negative as it does in the source.
\<close>

text \<open>\<open>filesize\<close>: the size of a file, or zero when \<open>stat\<close> fails with \<open>ENOENT\<close>.\<close>

definition filesize :: "path \<Rightarrow> ('s, int) prog" where
  "filesize p =
     try_catch (await (fs_stat p) (\<lambda>stats_size. return (int stats_size)))
       (\<lambda>error. if \<not> (code error = Some ''ENOENT'') then throw error else return 0)"

text \<open>
  \<open>Promise.all\<close>: every operation of the list is started, and all of them run; the
  result is the list of their values, or the first error in list order.
\<close>

fun run_all :: "('s, 'a) prog list \<Rightarrow> 's world \<Rightarrow> (error + 'a) list \<times> 's world" where
  "run_all [] w = ([], w)"
| "run_all (m # ms) w =
     (case m w of (r, w1) \<Rightarrow> (case run_all ms w1 of (rs, w2) \<Rightarrow> (r # rs, w2)))"

fun settle :: "(error + 'a) list \<Rightarrow> error + 'a list" where
  "settle [] = Inr []"
| "settle (Inl e # rs) = Inl e"
| "settle (Inr x # rs) = (case settle rs of Inl e \<Rightarrow> Inl e | Inr xs \<Rightarrow> Inr (x # xs))"

definition promise_all :: "('s, 'a) prog list \<Rightarrow> ('s, 'a list) prog" where
  "promise_all ms w = (case run_all ms w of (rs, w') \<Rightarrow> (settle rs, w'))"

definition dirsize :: "path \<Rightarrow> ('s, int) prog" where
  "dirsize directory =
     await (fs_readdir directory) (\<lambda>names.
     await (promise_all (map (\<lambda>filename. filesize (path_join [directory, filename])) names))
       (\<lambda>sizes. return (foldl (\<lambda>a b. a + b) 0 sizes)))"

definition purge_warning :: string where
  "purge_warning = ''Unable to reduce disk usage of the DB directory because deleting any single dump would drop in-use code intel for a repository.''"

text \<open>
  The \<open>while\<close> loop of \<open>purge\<close>, from the running total \<open>currentSizeBytes\<close>; it returns
  the running total at the exit of the loop.  Nothing bounds the number of iterations
  (a dump manager may offer a dump of size zero for ever), so the loop takes fuel: the
  number of times the body may run.  \<open>None\<close> is a loop that wants to run its body once
  more than that.
\<close>

fun purge_loop :: "nat \<Rightarrow> 's env \<Rightarrow> string \<Rightarrow> int \<Rightarrow> int \<Rightarrow> 's world \<Rightarrow>
    ((error + int) \<times> 's world) option" where
  "purge_loop 0 env storageRoot maximumSizeBytes currentSizeBytes w =
     (if currentSizeBytes > maximumSizeBytes then None else Some (Inr currentSizeBytes, w))"
| "purge_loop (Suc fuel) env storageRoot maximumSizeBytes currentSizeBytes w =
     (if currentSizeBytes > maximumSizeBytes then
        (case external GetOldestPrunableDump (getOldestPrunableDump env) w of
           (Inl e, w1) \<Rightarrow> Some (Inl e, w1)
         | (Inr None, w1) \<Rightarrow>
             (case emit (LogWarn purge_warning) w1 of (_, w2) \<Rightarrow> Some (Inr currentSizeBytes, w2))
         | (Inr (Some dump), w1) \<Rightarrow>
             (case emit (LogInfo ''Pruning dump'') w1 of (_, w2) \<Rightarrow>
              case filesize (dbFilename env storageRoot (dumpId dump) (dumpRepository dump)
                               (dumpCommit dump)) w2 of
                (Inl e, w3) \<Rightarrow> Some (Inl e, w3)
              | (Inr dumpSize, w3) \<Rightarrow>
                  (case external (DeleteDump dump) (deleteDump env dump) w3 of
                     (Inl e, w4) \<Rightarrow> Some (Inl e, w4)
                   | (Inr _, w4) \<Rightarrow>
                       purge_loop fuel env storageRoot maximumSizeBytes
                         (currentSizeBytes - dumpSize) w4)))
      else Some (Inr currentSizeBytes, w))"

text \<open>The closure \<open>purge\<close>: measure the directory, then loop.\<close>

definition purge :: "nat \<Rightarrow> 's env \<Rightarrow> string \<Rightarrow> int \<Rightarrow> 's world \<Rightarrow>
    ((error + unit) \<times> 's world) option" where
  "purge fuel env storageRoot maximumSizeBytes w =
     (case dirsize (path_join [storageRoot, DBS_DIR env]) w of
        (Inl e, w1) \<Rightarrow> Some (Inl e, w1)
      | (Inr currentSizeBytes, w1) \<Rightarrow>
          (case purge_loop fuel env storageRoot maximumSizeBytes currentSizeBytes w1 of
             None \<Rightarrow> None
           | Some (Inl e, w2) \<Rightarrow> Some (Inl e, w2)
           | Some (Inr _, w2) \<Rightarrow> Some (Inr (), w2)))"

text \<open>
  Modelled from the spec: \<open>withLock\<close> (imported from the shared store module) ``runs
  criticalSection with a named, store-backed advisory lock held for its duration''.
  The lock is taken before the critical section starts and given back when it has
  finished, whether it returned or threw; the result is the critical section's.  A
  lock that is already held is waited for: with no other worker in the model to
  release it, the call never returns.
\<close>

definition withLock :: "string \<Rightarrow> ('s world \<Rightarrow> ((error + 'a) \<times> 's world) option) \<Rightarrow>
    's world \<Rightarrow> ((error + 'a) \<times> 's world) option" where
  "withLock name criticalSection w =
     (if name \<in> locks w then None
      else
        (case criticalSection (w\<lparr>locks := insert name (locks w),
                                 trace := trace w @ [LockAcquire name]\<rparr>) of
           None \<Rightarrow> None
         | Some (r, w') \<Rightarrow>
             Some (r, w'\<lparr>locks := locks w' - {name}, trace := trace w' @ [LockRelease name]\<rparr>)))"

definition purgeOldDumps :: "nat \<Rightarrow> 's env \<Rightarrow> string \<Rightarrow> int \<Rightarrow> 's world \<Rightarrow>
    ((error + unit) \<times> 's world) option" where
  "purgeOldDumps fuel env storageRoot maximumSizeBytes w =
     (if maximumSizeBytes < 0 then Some (Inr (), w)
      else withLock ''retention'' (purge fuel env storageRoot maximumSizeBytes) w)"

section \<open>The pipeline\<close>


section \<open>Concurrent invocations of the retention enforcer\<close>

text \<open>
  Several workers may call \<open>purgeOldDumps\<close> at the same time.  An invocation is then
  not one step but a sequence of steps, one for each call it awaits, and the steps of
  different invocations interleave.  The program points of one invocation:
  \<^item> \<open>Start\<close>: called, nothing done yet;
  \<^item> \<open>Measure\<close>: inside \<open>withLock\<close>, lock taken, about to read the directory;
  \<^item> \<open>Sizing names results\<close>: inside \<open>Promise.all\<close>, with the entries still to size
    and the results so far;
  \<^item> \<open>LoopTest currentSizeBytes\<close>: at the head of the \<open>while\<close> loop;
  \<^item> \<open>Selected currentSizeBytes dump\<close>: a dump was selected, about to size its file;
  \<^item> \<open>Deleting currentSizeBytes dump dumpSize\<close>: about to delete the dump;
  \<^item> \<open>Releasing r\<close>: the closure \<open>purge\<close> has finished with \<open>r\<close>, about to give the
    lock back;
  \<^item> \<open>Finished r\<close>: the promise of \<open>purgeOldDumps\<close> is settled with \<open>r\<close>.
\<close>

datatype pc =
    Start
  | Measure
  | Sizing "string list" "(error + int) list"
  | LoopTest int
  | Selected int lsif_dump
  | Deleting int lsif_dump int
  | Releasing "error + unit"
  | Finished "error + unit"

text \<open>
  One step of an invocation of \<open>purgeOldDumps storageRoot maximumSizeBytes\<close>: the same
  calls as in \<open>purgeOldDumps\<close>, \<open>withLock\<close>, \<open>purge\<close>, \<open>dirsize\<close> and \<open>purge_loop\<close>, one
  at a time.  The steps from \<open>Start\<close> to \<open>Measure\<close> and from \<open>Releasing\<close> to \<open>Finished\<close>
  are the taking and the giving back of the lock as \<open>withLock\<close> above has them.
  \<open>None\<close>: no step is possible (the invocation waits for the lock, or has finished).
\<close>

definition purge_step ::
  "'s env \<Rightarrow> string \<Rightarrow> int \<Rightarrow> pc \<Rightarrow> 's world \<Rightarrow> (pc \<times> 's world) option" where
  "purge_step env storageRoot maximumSizeBytes p w =
     (case p of
        Start \<Rightarrow>
          (if maximumSizeBytes < 0 then Some (Finished (Inr ()), w)
           else if ''retention'' \<in> locks w then None
           else Some (Measure, w\<lparr>locks := insert ''retention'' (locks w),
                                  trace := trace w @ [LockAcquire ''retention'']\<rparr>))
      | Measure \<Rightarrow>
          (case fs_readdir (path_join [storageRoot, DBS_DIR env]) w of
             (Inl e, w1) \<Rightarrow> Some (Releasing (Inl e), w1)
           | (Inr names, w1) \<Rightarrow> Some (Sizing names [], w1))
      | Sizing [] results \<Rightarrow>
          (case settle results of
             Inl e \<Rightarrow> Some (Releasing (Inl e), w)
           | Inr sizes \<Rightarrow> Some (LoopTest (foldl (\<lambda>a b. a + b) 0 sizes), w))
      | Sizing (name # names) results \<Rightarrow>
          (case filesize (path_join [path_join [storageRoot, DBS_DIR env], name]) w of
             (r, w1) \<Rightarrow> Some (Sizing names (results @ [r]), w1))
      | LoopTest currentSizeBytes \<Rightarrow>
          (if currentSizeBytes > maximumSizeBytes then
             (case external GetOldestPrunableDump (getOldestPrunableDump env) w of
                (Inl e, w1) \<Rightarrow> Some (Releasing (Inl e), w1)
              | (Inr None, w1) \<Rightarrow>
                  (case emit (LogWarn purge_warning) w1 of
                     (_, w2) \<Rightarrow> Some (Releasing (Inr ()), w2))
              | (Inr (Some dump), w1) \<Rightarrow>
                  (case emit (LogInfo ''Pruning dump'') w1 of
                     (_, w2) \<Rightarrow> Some (Selected currentSizeBytes dump, w2)))
           else Some (Releasing (Inr ()), w))
      | Selected currentSizeBytes dump \<Rightarrow>
          (case filesize (dbFilename env storageRoot (dumpId dump) (dumpRepository dump)
                            (dumpCommit dump)) w of
             (Inl e, w1) \<Rightarrow> Some (Releasing (Inl e), w1)
           | (Inr dumpSize, w1) \<Rightarrow> Some (Deleting currentSizeBytes dump dumpSize, w1))
      | Deleting currentSizeBytes dump dumpSize \<Rightarrow>
          (case external (DeleteDump dump) (deleteDump env dump) w of
             (Inl e, w1) \<Rightarrow> Some (Releasing (Inl e), w1)
           | (Inr _, w1) \<Rightarrow> Some (LoopTest (currentSizeBytes - dumpSize), w1))
      | Releasing r \<Rightarrow>
          Some (Finished r, w\<lparr>locks := locks w - {''retention''},
                                trace := trace w @ [LockRelease ''retention'']\<rparr>)
      | Finished r \<Rightarrow> None)"

text \<open>An invocation running alone, for at most \<open>n\<close> steps.\<close>

fun purge_run :: "nat \<Rightarrow> 's env \<Rightarrow> string \<Rightarrow> int \<Rightarrow> pc \<times> 's world \<Rightarrow> pc \<times> 's world" where
  "purge_run 0 env storageRoot maximumSizeBytes c = c"
| "purge_run (Suc n) env storageRoot maximumSizeBytes c =
     (case purge_step env storageRoot maximumSizeBytes (fst c) (snd c) of
        None \<Rightarrow> c
      | Some c' \<Rightarrow> purge_run n env storageRoot maximumSizeBytes c')"

text \<open>
  The invocation holds the lock at the program points from \<open>Measure\<close> to \<open>Releasing\<close>:
  its critical section.
\<close>

definition in_critical_section :: "pc \<Rightarrow> bool" where
  "in_critical_section p = (case p of Start \<Rightarrow> False | Finished _ \<Rightarrow> False | _ \<Rightarrow> True)"

text \<open>
  A system of concurrent invocations over one shared world: the program point of each
  invocation, the world, and a journal of the calls made so far, each with the
  number of the invocation that made it.
\<close>

record 's system =
  pcs :: "pc list"
  shared :: "'s world"
  journal :: "(nat \<times> event) list"

text \<open>
  Invocation \<open>i\<close>, called with the arguments \<open>calls ! i\<close>, takes its next step; an
  invocation that cannot step stays where it is.
\<close>

definition worker_step ::
  "'s env \<Rightarrow> (string \<times> int) list \<Rightarrow> 's system \<Rightarrow> nat \<Rightarrow> 's system" where
  "worker_step env calls sys i =
     (if i < length calls \<and> i < length (pcs sys) then
        (case purge_step env (fst (calls ! i)) (snd (calls ! i)) (pcs sys ! i) (shared sys) of
           None \<Rightarrow> sys
         | Some (p', w') \<Rightarrow>
             \<lparr>pcs = (pcs sys)[i := p'], shared = w',
              journal = journal sys @
                map (Pair i) (drop (length (trace (shared sys))) (trace w'))\<rparr>)
      else sys)"

text \<open>
  An interleaving: all invocations start together, and the schedule names the
  invocation that steps next.
\<close>

definition interleave ::
  "'s env \<Rightarrow> (string \<times> int) list \<Rightarrow> nat list \<Rightarrow> 's world \<Rightarrow> 's system" where
  "interleave env calls schedule w =
     foldl (worker_step env calls)
       \<lparr>pcs = replicate (length calls) Start, shared = w, journal = []\<rparr> schedule"

text \<open>
  A journal is serialized when every call in it was made by the invocation that held
  the lock at that moment: an invocation takes the lock only when no invocation holds
  it, then all calls are its own until it gives the lock back.  \<open>serial_from holder j\<close>
  reads the journal \<open>j\<close> from the holder \<open>holder\<close> and gives the holder at its end, or
  \<open>None\<close> when some call breaks the rule.
\<close>

fun serial_from :: "nat option \<Rightarrow> (nat \<times> event) list \<Rightarrow> nat option option" where
  "serial_from holder [] = Some holder"
| "serial_from holder ((i, ev) # rest) =
     (case ev of
        LockAcquire name \<Rightarrow> (if holder = None then serial_from (Some i) rest else None)
      | LockRelease name \<Rightarrow> (if holder = Some i then serial_from None rest else None)
      | _ \<Rightarrow> (if holder = Some i then serial_from holder rest else None))"

definition serialized :: "(nat \<times> event) list \<Rightarrow> bool" where
  "serialized j = (serial_from None j \<noteq> None)"

text \<open>
  The lock is given back by \<open>withLock\<close> only: the calls to the dump manager inside the
  critical section are assumed not to release it.
\<close>

definition keeps_retention_lock :: "'s env \<Rightarrow> bool" where
  "keeps_retention_lock env =
     (\<forall>w. ''retention'' \<in> locks w \<longrightarrow>
          ''retention'' \<in> locks (snd (getOldestPrunableDump env w)) \<and>
          (\<forall>dump. ''retention'' \<in> locks (snd (deleteDump env dump w))))"

text \<open>
  The invariant of every interleaving: the journal is serialized, the invocation in its
  critical section is the holder at the end of the journal, and the lock is held
  when there is a holder.
\<close>

definition exclusion_invariant :: "(string \<times> int) list \<Rightarrow> 's system \<Rightarrow> bool" where
  "exclusion_invariant calls sys =
     (length (pcs sys) = length calls \<and>
      (\<exists>h. serial_from None (journal sys) = Some h \<and>
           (\<forall>i < length calls. in_critical_section (pcs sys ! i) \<longleftrightarrow> h = Some i) \<and>
           (h \<noteq> None \<longrightarrow> ''retention'' \<in> locks (shared sys))))"

section \<open>Vocabulary of the properties\<close>

text \<open>The path at which \<open>convertDatabase\<close> publishes the artifact of an upload.\<close>

abbreviation (input) final_path :: "'s env \<Rightarrow> lsif_upload \<Rightarrow> path" where
  "final_path env upload \<equiv>
     dbFilename env (STORAGE_ROOT env) (uploadId upload) (repository upload) (commit upload)"

text \<open>The four calls of the \<open>try\<close> block of \<open>convertDatabase\<close>, in program order.\<close>

definition conversion_steps :: "'s env \<Rightarrow> lsif_upload \<Rightarrow> event list" where
  "conversion_steps env upload =
     [ConvertLsif (filename upload) (tempFile env upload),
      DeleteOverlappingDumps (repository upload) (commit upload) (root upload),
      AddPackagesAndReferences (uploadId upload),
      Rename (tempFile env upload) (final_path env upload)]"

text \<open>
  The calls a purge makes inside its critical section: reading the directory, sizing
  files, selecting and deleting dumps, and log lines.
\<close>

definition is_purge_event :: "event \<Rightarrow> bool" where
  "is_purge_event ev =
     (case ev of
        Readdir _ \<Rightarrow> True | Stat _ \<Rightarrow> True | GetOldestPrunableDump \<Rightarrow> True
      | DeleteDump _ \<Rightarrow> True | LogInfo _ \<Rightarrow> True | LogWarn _ \<Rightarrow> True | _ \<Rightarrow> False)"

section \<open>A concrete environment for the scenarios\<close>

text \<open>
  Stand-ins for the collaborators, used to run the pipeline on concrete inputs.  The
  store is the list of prunable dumps, oldest first.  The converter copies the upload
  to its destination; the dump manager offers the head of the store and deletes a
  dump together with its file.
\<close>

definition demo_env :: "lsif_dump list env" where
  "demo_env =
     \<lparr>STORAGE_ROOT = ''/data'',
      DBS_DIR_MAXIMUM_SIZE_BYTES = 1000,
      TEMP_DIR = ''temp'',
      DBS_DIR = ''dbs'',
      dbFilename = (\<lambda>storageRoot id repository commit.
        path_join [storageRoot, ''dbs'', repository @ ''@'' @ commit]),
      convertLsif = (\<lambda>src dst w.
        case lookup (files w) src of
          Some (File n) \<Rightarrow> (Inr ([], []), w\<lparr>files := AList.update dst (File n) (files w)\<rparr>)
        | _ \<Rightarrow> (Inl (Error None ''cannot read the upload''), w)),
      deleteOverlappingDumps = (\<lambda>repository commit root. return ()),
      addPackagesAndReferences = (\<lambda>id packages references. return ()),
      discoverTip = (\<lambda>repository gitserverUrls. return (Some ''c2'')),
      discoverCommits = (\<lambda>repository commit gitserverUrls. return [(commit, {})]),
      updateCommits = (\<lambda>repository commits. return ()),
      updateDumpsVisibleFromTip = (\<lambda>repository tip. return ()),
      getOldestPrunableDump = (\<lambda>w. (Inr (case store w of [] \<Rightarrow> None | d # ds \<Rightarrow> Some d), w)),
      deleteDump = (\<lambda>dump w. (Inr (), w\<lparr>store := remove1 dump (store w),
        files := AList.delete
                   (path_join [''/data'', ''dbs'', dumpRepository dump @ ''@'' @ dumpCommit dump])
                   (files w)\<rparr>))\<rparr>"

definition demo_upload :: lsif_upload where
  "demo_upload = \<lparr>uploadId = 1, repository = ''r'', commit = ''c1'', root = [],
     filename = ''/data/uploads/u1''\<rparr>"

definition demo_world :: "lsif_dump list world" where
  "demo_world = \<lparr>files = [(''/data/uploads/u1'', File 10), (''/data/dbs'', Dir 0)],
     store = [], locks = {}, trace = []\<rparr>"

text \<open>A converter that writes part of its output and then fails.\<close>

definition corrupt_error :: error where
  "corrupt_error = Error None ''corrupt input''"









text \<open>A converter that fails before it writes anything.\<close>

definition env_failing :: "lsif_dump list env" where
  "env_failing = demo_env\<lparr>convertLsif := (\<lambda>src dst. throw corrupt_error)\<rparr>"



text \<open>A repository without a tip.\<close>

definition env_no_tip :: "lsif_dump list env" where
  "env_no_tip = demo_env\<lparr>discoverTip := (\<lambda>repository gitserverUrls. return None)\<rparr>"

text \<open>
  The retention scenario of the specification: a quota of 1000 bytes and three
  artifacts of 600, 300 and 200 bytes, offered oldest first.
\<close>

definition dump_A :: lsif_dump where
  "dump_A = \<lparr>dumpId = 1, dumpRepository = ''a'', dumpCommit = ''1'', dumpRoot = []\<rparr>"

definition dump_B :: lsif_dump where
  "dump_B = \<lparr>dumpId = 2, dumpRepository = ''b'', dumpCommit = ''1'', dumpRoot = []\<rparr>"

definition dump_C :: lsif_dump where
  "dump_C = \<lparr>dumpId = 3, dumpRepository = ''c'', dumpCommit = ''1'', dumpRoot = []\<rparr>"

definition retention_files :: filesystem where
  "retention_files =
     [(''/data/dbs'', Dir 0), (''/data/dbs/a@1'', File 600), (''/data/dbs/b@1'', File 300),
      (''/data/dbs/c@1'', File 200)]"

definition retention_world :: "lsif_dump list world" where
  "retention_world =
     \<lparr>files = retention_files, store = [dump_A, dump_B, dump_C], locks = {}, trace = []\<rparr>"


text \<open>The worlds the two purges leave.\<close>

definition retention_after :: "lsif_dump list world" where
  "retention_after = retention_world\<lparr>
     files := [(''/data/dbs'', Dir 0), (''/data/dbs/b@1'', File 300),
               (''/data/dbs/c@1'', File 200)],
     store := [dump_B, dump_C],
     trace := [LockAcquire ''retention'', Readdir ''/data/dbs'',
       Stat ''/data/dbs/a@1'', Stat ''/data/dbs/b@1'', Stat ''/data/dbs/c@1'',
       GetOldestPrunableDump, LogInfo ''Pruning dump'', Stat ''/data/dbs/a@1'',
       DeleteDump dump_A, LockRelease ''retention'']\<rparr>"




text \<open>Two concurrent invocations with the quota of the retention scenario.\<close>

definition two_calls :: "(string \<times> int) list" where
  "two_calls = [(''/data'', 1000), (''/data'', 1000)]"




section \<open>Basic facts\<close>

lemmas path_simps = path_join_def path_basename_def path_normalize_def

lemmas prog_simps = await_def external_def try_catch_def emit_def return_def throw_def



lemma await_Inl:
  "await m f w = (Inl e, w') \<longleftrightarrow>
     m w = (Inl e, w') \<or> (\<exists>x w1. m w = (Inr x, w1) \<and> f x w1 = (Inl e, w'))"
  by (auto simp: await_def split: prod.splits sum.splits)

lemma await_Inr:
  "await m f w = (Inr y, w') \<longleftrightarrow> (\<exists>x w1. m w = (Inr x, w1) \<and> f x w1 = (Inr y, w'))"
  by (auto simp: await_def split: prod.splits sum.splits)

lemma external_trace: "external ev f w = (r, w') \<Longrightarrow> trace w' = trace w @ [ev]"
  by (auto simp: external_def split: prod.splits)

subsection \<open>File-system calls\<close>


lemma unlink_missing:
  "lookup (files w) p = None \<Longrightarrow>
   fs_unlink p w =
     (Inl (system_error ''ENOENT'' ''unlink'' p), w\<lparr>trace := trace w @ [Unlink p]\<rparr>)"
  by (simp add: fs_unlink_def)


lemma unlink_trace:
  "fs_unlink p w = (r, w') \<Longrightarrow>
   trace w' = trace w @ [Unlink p] \<and> store w' = store w \<and> locks w' = locks w"
  by (auto simp: fs_unlink_def split: option.splits node.splits)

lemma rename_fails:
  "fs_rename src dst w = (Inl e, w') \<Longrightarrow> w' = w\<lparr>trace := trace w @ [Rename src dst]\<rparr>"
  by (auto simp: fs_rename_def Let_def split: option.splits node.splits if_splits)

lemma rename_trace:
  "fs_rename src dst w = (r, w') \<Longrightarrow>
   trace w' = trace w @ [Rename src dst] \<and> store w' = store w \<and> locks w' = locks w"
  by (auto simp: fs_rename_def Let_def split: option.splits node.splits if_splits)


section \<open>The conversion orchestrator: what a run does\<close>

text \<open>The \<open>try\<close> block succeeds exactly when its four calls succeed one after the other.\<close>

lemma convertDatabase_try_success:
  "convertDatabase_try env upload w = (Inr u, w') \<longleftrightarrow>
     (\<exists>packages references w1 w2 w3 w4.
        external (ConvertLsif (filename upload) (tempFile env upload))
          (convertLsif env (filename upload) (tempFile env upload)) w
          = (Inr (packages, references), w1) \<and>
        external (DeleteOverlappingDumps (repository upload) (commit upload) (root upload))
          (deleteOverlappingDumps env (repository upload) (commit upload) (root upload)) w1
          = (Inr (), w2) \<and>
        external (AddPackagesAndReferences (uploadId upload))
          (addPackagesAndReferences env (uploadId upload) packages references) w2
          = (Inr (), w3) \<and>
        fs_rename (tempFile env upload) (final_path env upload) w3 = (Inr (), w4) \<and>
        w' = w4\<lparr>trace := trace w4 @ [LogInfo ''Created dump'']\<rparr>)"
  by (auto simp: convertDatabase_try_def await_Inr emit_def split: prod.splits)

text \<open>
  The \<open>try\<close> block fails with \<open>e\<close> exactly when the converter fails with \<open>e\<close>, or the
  overlap deletion does after a conversion that succeeded, or the insert of packages
  and references does after both, or the rename does after all three.
\<close>

lemma convertDatabase_try_failure:
  "convertDatabase_try env upload w = (Inl e, w') \<longleftrightarrow>
     external (ConvertLsif (filename upload) (tempFile env upload))
       (convertLsif env (filename upload) (tempFile env upload)) w = (Inl e, w') \<or>
     (\<exists>packages references w1.
        external (ConvertLsif (filename upload) (tempFile env upload))
          (convertLsif env (filename upload) (tempFile env upload)) w
          = (Inr (packages, references), w1) \<and>
        (external (DeleteOverlappingDumps (repository upload) (commit upload) (root upload))
           (deleteOverlappingDumps env (repository upload) (commit upload) (root upload)) w1
           = (Inl e, w') \<or>
         (\<exists>w2.
            external (DeleteOverlappingDumps (repository upload) (commit upload) (root upload))
              (deleteOverlappingDumps env (repository upload) (commit upload) (root upload)) w1
              = (Inr (), w2) \<and>
            (external (AddPackagesAndReferences (uploadId upload))
               (addPackagesAndReferences env (uploadId upload) packages references) w2
               = (Inl e, w') \<or>
             (\<exists>w3.
                external (AddPackagesAndReferences (uploadId upload))
                  (addPackagesAndReferences env (uploadId upload) packages references) w2
                  = (Inr (), w3) \<and>
                fs_rename (tempFile env upload) (final_path env upload) w3 = (Inl e, w'))))))"
  by (auto simp: convertDatabase_try_def await_Inl emit_def split: prod.splits)

lemma try_success_trace:
  "convertDatabase_try env upload w = (Inr u, w1) \<Longrightarrow>
   trace w1 = trace w @ conversion_steps env upload @ [LogInfo ''Created dump'']"
  by (auto simp: convertDatabase_try_success conversion_steps_def
      dest!: external_trace rename_trace)

lemma try_failure_trace:
  "convertDatabase_try env upload w = (Inl e, w1) \<Longrightarrow>
   \<exists>k. 1 \<le> k \<and> k \<le> 4 \<and> trace w1 = trace w @ take k (conversion_steps env upload)"
  apply (simp add: convertDatabase_try_failure)
  apply (elim disjE exE conjE)
     apply (rule exI[of _ 1], simp add: conversion_steps_def, drule external_trace, simp)
    apply (rule exI[of _ 2], simp add: conversion_steps_def, (drule external_trace)+, simp)
   apply (rule exI[of _ 3], simp add: conversion_steps_def, (drule external_trace)+, simp)
  apply (rule exI[of _ 4], simp add: conversion_steps_def, (drule external_trace)+,
      drule rename_trace, simp)
  done

text \<open>The \<open>catch\<close> block: the cleanup is awaited, and only then is the error thrown again.\<close>

lemma convertDatabase_after_failure:
  "convertDatabase_try env upload w = (Inl e, w1) \<Longrightarrow>
   convertDatabase env upload w =
     (case fs_unlink (tempFile env upload) w1 of
        (Inl e', w2) \<Rightarrow> (Inl e', w2)
      | (Inr _, w2) \<Rightarrow> (Inl e, w2))"
  by (simp add: convertDatabase_def await_def try_catch_def throw_def
      split: prod.splits sum.splits)

lemma convertDatabase_after_success:
  "convertDatabase_try env upload w = (Inr u, w1) \<Longrightarrow>
   convertDatabase env upload w = fs_unlink (filename upload) w1"
  by (simp add: convertDatabase_def await_def try_catch_def)

section \<open>Claims about the conversion orchestrator\<close>


lemma temp_demo: "tempFile demo_env demo_upload = ''/data/temp/u1''"
  by (simp add: tempFile_def demo_env_def demo_upload_def path_simps)

lemma final_demo: "final_path demo_env demo_upload = ''/data/dbs/r@c1''"
  by (simp add: demo_env_def demo_upload_def path_simps)




text \<open>
  Claim C6.  Every run of \<open>convertDatabase\<close> makes its calls in program order: the
  converter, then \<open>deleteOverlappingDumps\<close>, then \<open>addPackagesAndReferences\<close>, then the
  rename, then the removal of the upload's source file.  A run in which one of the first
  four calls fails made the calls up to that one, in this order, and then the cleanup
  \<open>unlink\<close> of the temp file.  Otherwise all four succeeded, each started in the world
  the one before it returned (in particular \<open>addPackagesAndReferences\<close> starts in the
  world \<open>deleteOverlappingDumps\<close> returned), and the source file is removed last.
\<close>

theorem convertDatabase_order:
  assumes "convertDatabase env upload w = (r, w')"
  shows "((\<exists>e. r = Inl e) \<and>
          (\<exists>k. 1 \<le> k \<and> k \<le> 4 \<and>
             trace w' = trace w @ take k (conversion_steps env upload)
                          @ [Unlink (tempFile env upload)]))
       \<or> (trace w' = trace w @ conversion_steps env upload @
                        [LogInfo ''Created dump'', Unlink (filename upload)] \<and>
          (\<exists>packages references w1 w2 w3 w4.
             convertLsif env (filename upload) (tempFile env upload) w
               = (Inr (packages, references), w1) \<and>
             deleteOverlappingDumps env (repository upload) (commit upload) (root upload)
               (w1\<lparr>trace := trace w @ take 1 (conversion_steps env upload)\<rparr>) = (Inr (), w2) \<and>
             addPackagesAndReferences env (uploadId upload) packages references
               (w2\<lparr>trace := trace w @ take 2 (conversion_steps env upload)\<rparr>) = (Inr (), w3) \<and>
             fs_rename (tempFile env upload) (final_path env upload)
               (w3\<lparr>trace := trace w @ take 3 (conversion_steps env upload)\<rparr>) = (Inr (), w4) \<and>
             fs_unlink (filename upload) (w4\<lparr>trace := trace w4 @ [LogInfo ''Created dump'']\<rparr>)
               = (r, w')))"
proof (cases "convertDatabase_try env upload w")
  case (Pair r1 w1)
  show ?thesis
  proof (cases r1)
    case (Inl e)
    with Pair have t: "convertDatabase_try env upload w = (Inl e, w1)" by simp
    from try_failure_trace[OF t] obtain k where
      k: "1 \<le> k" "k \<le> 4" "trace w1 = trace w @ take k (conversion_steps env upload)" by blast
    obtain r2 w2 where u: "fs_unlink (tempFile env upload) w1 = (r2, w2)"
      by (cases "fs_unlink (tempFile env upload) w1")
    from unlink_trace[OF u] have tw2: "trace w2 = trace w1 @ [Unlink (tempFile env upload)]"
      by simp
    from assms t u have "w' = w2 \<and> (\<exists>e. r = Inl e)"
      by (auto simp: convertDatabase_after_failure split: sum.splits)
    with k tw2 show ?thesis by auto
  next
    case (Inr u)
    with Pair have t: "convertDatabase_try env upload w = (Inr (), w1)" by simp
    from t obtain packages references wa wb wc wd where
      a: "external (ConvertLsif (filename upload) (tempFile env upload))
          (convertLsif env (filename upload) (tempFile env upload)) w
          = (Inr (packages, references), wa)"
      and b: "external (DeleteOverlappingDumps (repository upload) (commit upload) (root upload))
          (deleteOverlappingDumps env (repository upload) (commit upload) (root upload)) wa
          = (Inr (), wb)"
      and c: "external (AddPackagesAndReferences (uploadId upload))
          (addPackagesAndReferences env (uploadId upload) packages references) wb = (Inr (), wc)"
      and d: "fs_rename (tempFile env upload) (final_path env upload) wc = (Inr (), wd)"
      and w1: "w1 = wd\<lparr>trace := trace wd @ [LogInfo ''Created dump'']\<rparr>"
      unfolding convertDatabase_try_success by blast
    from a obtain w1' where
      a': "convertLsif env (filename upload) (tempFile env upload) w
             = (Inr (packages, references), w1')"
      and wa: "wa = w1'\<lparr>trace := trace w @ take 1 (conversion_steps env upload)\<rparr>"
      by (auto simp: external_def conversion_steps_def split: prod.splits)
    from b obtain w2' where
      b': "deleteOverlappingDumps env (repository upload) (commit upload) (root upload) wa
             = (Inr (), w2')"
      and wb: "wb = w2'\<lparr>trace := trace w @ take 2 (conversion_steps env upload)\<rparr>"
      using wa by (auto simp: external_def conversion_steps_def split: prod.splits)
    from c obtain w3' where
      c': "addPackagesAndReferences env (uploadId upload) packages references wb = (Inr (), w3')"
      and wc: "wc = w3'\<lparr>trace := trace w @ take 3 (conversion_steps env upload)\<rparr>"
      using wb by (auto simp: external_def conversion_steps_def split: prod.splits)
    have fin: "fs_unlink (filename upload) (wd\<lparr>trace := trace wd @ [LogInfo ''Created dump'']\<rparr>)
                 = (r, w')"
      using assms t w1 by (simp add: convertDatabase_after_success)
    have tr: "trace w' = trace w @ conversion_steps env upload @
                        [LogInfo ''Created dump'', Unlink (filename upload)]"
      using unlink_trace[OF fin] try_success_trace[OF t] w1 by simp
    show ?thesis
      using tr a' b' c' d fin wa wb wc by blast
  qed
qed

lemma convertDatabase_demo:
  "convertDatabase demo_env demo_upload demo_world =
     (Inr (), demo_world\<lparr>files := [(''/data/dbs'', Dir 0), (''/data/dbs/r@c1'', File 10)],
        trace := [ConvertLsif ''/data/uploads/u1'' ''/data/temp/u1'',
                  DeleteOverlappingDumps ''r'' ''c1'' [],
                  AddPackagesAndReferences 1,
                  Rename ''/data/temp/u1'' ''/data/dbs/r@c1'',
                  LogInfo ''Created dump'',
                  Unlink ''/data/uploads/u1'']\<rparr>)"
  by (simp add: convertDatabase_def convertDatabase_try_def prog_simps temp_demo final_demo)
     (simp add: demo_env_def demo_upload_def demo_world_def prog_simps fs_rename_def
        fs_unlink_def lookup_def)

text \<open>A run that succeeds: six calls, in program order.\<close>

theorem convertDatabase_order_witness:
  "fst (convertDatabase demo_env demo_upload demo_world) = Inr () \<and>
   trace (snd (convertDatabase demo_env demo_upload demo_world)) =
     [ConvertLsif ''/data/uploads/u1'' ''/data/temp/u1'',
      DeleteOverlappingDumps ''r'' ''c1'' [],
      AddPackagesAndReferences 1,
      Rename ''/data/temp/u1'' ''/data/dbs/r@c1'',
      LogInfo ''Created dump'',
      Unlink ''/data/uploads/u1'']"
proof -
  have r: "fst (convertDatabase demo_env demo_upload demo_world) = Inr ()"
    by (simp add: convertDatabase_demo)
  have steps: "conversion_steps demo_env demo_upload =
     [ConvertLsif ''/data/uploads/u1'' ''/data/temp/u1'',
      DeleteOverlappingDumps ''r'' ''c1'' [],
      AddPackagesAndReferences 1,
      Rename ''/data/temp/u1'' ''/data/dbs/r@c1'']"
    unfolding conversion_steps_def temp_demo final_demo by (simp add: demo_upload_def)
  have "convertDatabase demo_env demo_upload demo_world =
          (fst (convertDatabase demo_env demo_upload demo_world),
           snd (convertDatabase demo_env demo_upload demo_world))"
    by simp
  from convertDatabase_order[OF this] r
  have "trace (snd (convertDatabase demo_env demo_upload demo_world)) =
          trace demo_world @ conversion_steps demo_env demo_upload @
            [LogInfo ''Created dump'', Unlink (filename demo_upload)]"
    by auto
  with r steps show ?thesis
    by (simp add: demo_world_def demo_upload_def)
qed

text \<open>
  Claim C9.  If the converter fails with \<open>e\<close> and no node exists at the temp path in the
  world it leaves, the cleanup \<open>unlink\<close> fails with \<open>ENOENT\<close>, and \<open>convertDatabase\<close>
  fails with that file-system error, whatever \<open>e\<close> was: the converter's error is lost.
\<close>

theorem convertDatabase_cleanup_error_propagates:
  assumes "convertLsif env (filename upload) (tempFile env upload) w = (Inl e, w1)"
    and "lookup (files w1) (tempFile env upload) = None"
  shows "convertDatabase env upload w =
           (Inl (system_error ''ENOENT'' ''unlink'' (tempFile env upload)),
            w1\<lparr>trace := trace w @ [ConvertLsif (filename upload) (tempFile env upload),
                                    Unlink (tempFile env upload)]\<rparr>)"
proof -
  have "convertDatabase_try env upload w =
          (Inl e, w1\<lparr>trace := trace w @ [ConvertLsif (filename upload) (tempFile env upload)]\<rparr>)"
    using assms(1) by (simp add: convertDatabase_try_failure external_def)
  then show ?thesis
    using assms(2) by (simp add: convertDatabase_after_failure unlink_missing)
qed

lemma temp_failing: "tempFile env_failing demo_upload = ''/data/temp/u1''"
  by (simp add: tempFile_def env_failing_def demo_env_def demo_upload_def path_simps)

theorem convertDatabase_cleanup_error_propagates_witness:
  "convertLsif env_failing (filename demo_upload) (tempFile env_failing demo_upload) demo_world
     = (Inl corrupt_error, demo_world) \<and>
   lookup (files demo_world) (tempFile env_failing demo_upload) = None \<and>
   convertDatabase env_failing demo_upload demo_world =
     (Inl (Error (Some ''ENOENT'') ''ENOENT: unlink /data/temp/u1''),
      demo_world\<lparr>trace := [ConvertLsif ''/data/uploads/u1'' ''/data/temp/u1'',
                             Unlink ''/data/temp/u1'']\<rparr>) \<and>
   Error (Some ''ENOENT'') ''ENOENT: unlink /data/temp/u1'' \<noteq> corrupt_error"
proof -
  have h1: "convertLsif env_failing (filename demo_upload) (tempFile env_failing demo_upload)
              demo_world = (Inl corrupt_error, demo_world)"
    by (simp add: env_failing_def demo_env_def throw_def)
  have h2: "lookup (files demo_world) (tempFile env_failing demo_upload) = None"
    by (simp add: temp_failing demo_world_def lookup_def)
  from convertDatabase_cleanup_error_propagates[OF h1 h2] h1 h2 show ?thesis
    unfolding temp_failing
    by (simp add: system_error_def demo_upload_def demo_world_def corrupt_error_def)
qed





section \<open>Claims about the visibility updater\<close>

text \<open>
  Claim C4.  If \<open>discoverTip\<close> returns \<open>undefined\<close>, leaving the world \<open>w1\<close>, then
  \<open>updateCommitsAndDumpsVisibleFromTip\<close> throws the ``no tip'' error, and the world
  it leaves is \<open>w1\<close> with the one call to \<open>discoverTip\<close> added to the trace: there is no
  call to \<open>discoverCommits\<close>, \<open>updateCommits\<close> or \<open>updateDumpsVisibleFromTip\<close>, and
  the stores are as the tip lookup left them.
\<close>

theorem updateCommits_no_tip:
  assumes "discoverTip env (repository upload) (fetchConfiguration w) w = (Inr None, w1)"
  shows "updateCommitsAndDumpsVisibleFromTip env fetchConfiguration upload w =
           (Inl no_tip_error, w1\<lparr>trace := trace w @ [DiscoverTip (repository upload)]\<rparr>)"
  using assms
  by (simp add: updateCommitsAndDumpsVisibleFromTip_def Let_def await_def external_def throw_def)

theorem updateCommits_no_tip_witness:
  "discoverTip env_no_tip (repository demo_upload) [] demo_world = (Inr None, demo_world) \<and>
   updateCommitsAndDumpsVisibleFromTip env_no_tip (\<lambda>w. []) demo_upload demo_world =
     (Inl (Error None ''No tip commit available for repository''),
      demo_world\<lparr>trace := [DiscoverTip ''r'']\<rparr>)"
proof -
  have h: "discoverTip env_no_tip (repository demo_upload) ((\<lambda>w. []) demo_world) demo_world
             = (Inr None, demo_world)"
    by (simp add: env_no_tip_def demo_env_def return_def)
  from updateCommits_no_tip[OF h] h show ?thesis
    by (simp add: no_tip_error_def demo_world_def demo_upload_def)
qed









section \<open>The retention enforcer: what a run does\<close>

lemma stat_world: "fs_stat p w = (r, w') \<Longrightarrow> w' = w\<lparr>trace := trace w @ [Stat p]\<rparr>"
  by (auto simp: fs_stat_def split: option.splits)

text \<open>\<open>filesize\<close> changes nothing but the trace.\<close>

lemma filesize_world: "filesize p w = (r, w') \<Longrightarrow> w' = w\<lparr>trace := trace w @ [Stat p]\<rparr>"
  by (auto simp: filesize_def try_catch_def await_def return_def throw_def
      split: prod.splits sum.splits if_splits dest: stat_world)


lemma run_all_filesize:
  "run_all (map (\<lambda>name. filesize (f name)) names) w = (rs, w') \<Longrightarrow>
   w' = w\<lparr>trace := trace w @ map (\<lambda>name. Stat (f name)) names\<rparr>"
proof (induction names arbitrary: w rs w')
  case Nil
  then show ?case by simp
next
  case (Cons a names)
  obtain r w1 where a: "filesize (f a) w = (r, w1)" by (cases "filesize (f a) w")
  obtain rs' w2 where b: "run_all (map (\<lambda>name. filesize (f name)) names) w1 = (rs', w2)"
    by (cases "run_all (map (\<lambda>name. filesize (f name)) names) w1")
  from Cons.prems a b have "w' = w2" by simp
  with Cons.IH[OF b] filesize_world[OF a] show ?case by simp
qed

lemma readdir_world: "fs_readdir d w = (r, w') \<Longrightarrow> w' = w\<lparr>trace := trace w @ [Readdir d]\<rparr>"
  by (auto simp: fs_readdir_def split: option.splits node.splits)

text \<open>\<open>dirsize\<close> reads: it changes nothing but the trace, and it logs nothing.\<close>

lemma dirsize_world:
  assumes "dirsize d w = (r, w')"
  shows "\<exists>evs. w' = w\<lparr>trace := trace w @ evs\<rparr> \<and> (\<forall>ev \<in> set evs. is_purge_event ev)
           \<and> LogWarn purge_warning \<notin> set evs \<and> GetOldestPrunableDump \<notin> set evs"
proof -
  obtain r1 w1 where rd: "fs_readdir d w = (r1, w1)" by (cases "fs_readdir d w")
  note w1 = readdir_world[OF rd]
  show ?thesis
  proof (cases r1)
    case (Inl e)
    with assms rd have "w' = w1" by (simp add: dirsize_def await_def)
    with w1 have "w' = w\<lparr>trace := trace w @ [Readdir d]\<rparr>" by simp
    then show ?thesis by (intro exI[of _ "[Readdir d]"]) (simp add: is_purge_event_def)
  next
    case (Inr names)
    obtain rs w2 where
      ra: "run_all (map (\<lambda>filename. filesize (path_join [d, filename])) names) w1 = (rs, w2)"
      by (cases "run_all (map (\<lambda>filename. filesize (path_join [d, filename])) names) w1")
    from assms rd Inr ra have "w' = w2"
      by (auto simp: dirsize_def await_def promise_all_def return_def split: sum.splits)
    with run_all_filesize[OF ra] w1
    have "w' = w\<lparr>trace := trace w @
                 (Readdir d # map (\<lambda>name. Stat (path_join [d, name])) names)\<rparr>"
      by simp
    then show ?thesis
      by (intro exI[of _ "Readdir d # map (\<lambda>name. Stat (path_join [d, name])) names"])
         (auto simp: is_purge_event_def)
  qed
qed

text \<open>
  A loop that returns has added purge events only; if the warning is among them the
  loop returned normally, and if it is not, a loop that returned normally left a
  running total within the quota.
\<close>

lemma purge_loop_trace:
  "purge_loop fuel env storageRoot maximumSizeBytes cur w = Some (r, w') \<Longrightarrow>
   \<exists>evs. trace w' = trace w @ evs \<and> (\<forall>ev \<in> set evs. is_purge_event ev) \<and>
     (LogWarn purge_warning \<in> set evs \<longrightarrow> (\<exists>c. r = Inr c)) \<and>
     (LogWarn purge_warning \<notin> set evs \<longrightarrow> (\<forall>c. r = Inr c \<longrightarrow> c \<le> maximumSizeBytes))"
proof (induction fuel arbitrary: cur w)
  case 0
  then show ?case by (auto split: if_splits)
next
  case (Suc fuel)
  show ?case
  proof (cases "cur > maximumSizeBytes")
    case False
    with Suc.prems show ?thesis by auto
  next
    case True
    obtain r1 w1 where g: "external GetOldestPrunableDump (getOldestPrunableDump env) w = (r1, w1)"
      by (cases "external GetOldestPrunableDump (getOldestPrunableDump env) w")
    note t1 = external_trace[OF g]
    show ?thesis
    proof (cases r1)
      case (Inl e)
      with Suc.prems True g t1 show ?thesis
        by (intro exI[of _ "[GetOldestPrunableDump]"]) (auto simp: is_purge_event_def)
    next
      case (Inr od)
      show ?thesis
      proof (cases od)
        case None
        with Suc.prems True g t1 Inr show ?thesis
          by (intro exI[of _ "[GetOldestPrunableDump, LogWarn purge_warning]"])
             (auto simp: is_purge_event_def emit_def)
      next
        case (Some dump)
        let ?p = "dbFilename env storageRoot (dumpId dump) (dumpRepository dump) (dumpCommit dump)"
        let ?w2 = "w1\<lparr>trace := trace w1 @ [LogInfo ''Pruning dump'']\<rparr>"
        obtain r3 w3 where f: "filesize ?p ?w2 = (r3, w3)" by (cases "filesize ?p ?w2")
        from filesize_world[OF f] t1
        have t3: "trace w3 = trace w @ [GetOldestPrunableDump, LogInfo ''Pruning dump'', Stat ?p]"
          by simp
        show ?thesis
        proof (cases r3)
          case (Inl e)
          with Suc.prems True g Inr Some f t3 show ?thesis
            by (intro exI[of _ "[GetOldestPrunableDump, LogInfo ''Pruning dump'', Stat ?p]"])
               (auto simp: is_purge_event_def emit_def purge_warning_def)
        next
          case sz: (Inr dumpSize)
          obtain r4 w4 where d: "external (DeleteDump dump) (deleteDump env dump) w3 = (r4, w4)"
            by (cases "external (DeleteDump dump) (deleteDump env dump) w3")
          from external_trace[OF d] t3
          have t4: "trace w4 = trace w @
              [GetOldestPrunableDump, LogInfo ''Pruning dump'', Stat ?p, DeleteDump dump]"
            by simp
          show ?thesis
          proof (cases r4)
            case (Inl e)
            with Suc.prems True g Inr Some f sz d t4 show ?thesis
              by (intro exI[of _ "[GetOldestPrunableDump, LogInfo ''Pruning dump'', Stat ?p,
                                   DeleteDump dump]"])
                 (auto simp: is_purge_event_def emit_def purge_warning_def)
          next
            case ok: (Inr u)
            from Suc.prems True g Inr Some f sz d ok
            have rec: "purge_loop fuel env storageRoot maximumSizeBytes (cur - dumpSize) w4
                         = Some (r, w')"
              by (simp add: emit_def)
            from Suc.IH[OF rec] obtain evs where
              e: "trace w' = trace w4 @ evs" "\<forall>ev \<in> set evs. is_purge_event ev"
                 "LogWarn purge_warning \<in> set evs \<longrightarrow> (\<exists>c. r = Inr c)"
                 "LogWarn purge_warning \<notin> set evs \<longrightarrow>
                    (\<forall>c. r = Inr c \<longrightarrow> c \<le> maximumSizeBytes)"
              by blast
            show ?thesis
              using e t4
              by (intro exI[of _ "[GetOldestPrunableDump, LogInfo ''Pruning dump'', Stat ?p,
                                   DeleteDump dump] @ evs"])
                 (auto simp: is_purge_event_def purge_warning_def)
          qed
        qed
      qed
    qed
  qed
qed

text \<open>The closure \<open>purge\<close> returns when the measurement fails, or when the loop returns.\<close>

lemma purge_Some:
  "purge fuel env storageRoot maximumSizeBytes w = Some (r, w') \<longleftrightarrow>
     (\<exists>e. r = Inl e \<and> dirsize (path_join [storageRoot, DBS_DIR env]) w = (Inl e, w')) \<or>
     (\<exists>cur0 w0 r'. dirsize (path_join [storageRoot, DBS_DIR env]) w = (Inr cur0, w0) \<and>
        purge_loop fuel env storageRoot maximumSizeBytes cur0 w0 = Some (r', w') \<and>
        r = (case r' of Inl e \<Rightarrow> Inl e | Inr c \<Rightarrow> Inr ()))"
proof (cases "dirsize (path_join [storageRoot, DBS_DIR env]) w")
  case (Pair r0 w0)
  show ?thesis
  proof (cases r0)
    case (Inl e)
    with Pair show ?thesis by (auto simp: purge_def)
  next
    case (Inr cur0)
    show ?thesis
    proof (cases "purge_loop fuel env storageRoot maximumSizeBytes cur0 w0")
      case None
      with Pair Inr show ?thesis by (simp add: purge_def)
    next
      case (Some p)
      obtain r' w2 where p: "p = (r', w2)" by (cases p)
      with Pair Inr Some show ?thesis by (cases r') (auto simp: purge_def)
    qed
  qed
qed

lemma purge_trace:
  assumes "purge fuel env storageRoot maximumSizeBytes w = Some (r, w')"
  shows "\<exists>evs. trace w' = trace w @ evs \<and> (\<forall>ev \<in> set evs. is_purge_event ev) \<and>
           (LogWarn purge_warning \<in> set evs \<longrightarrow> r = Inr ())"
proof -
  from assms consider
    (a) e where "r = Inl e" "dirsize (path_join [storageRoot, DBS_DIR env]) w = (Inl e, w')"
  | (b) cur0 w0 r' where "dirsize (path_join [storageRoot, DBS_DIR env]) w = (Inr cur0, w0)"
        "purge_loop fuel env storageRoot maximumSizeBytes cur0 w0 = Some (r', w')"
        "r = (case r' of Inl e \<Rightarrow> Inl e | Inr c \<Rightarrow> Inr ())"
    unfolding purge_Some by blast
  then show ?thesis
  proof cases
    case a
    from dirsize_world[OF a(2)] show ?thesis by auto
  next
    case b
    from dirsize_world[OF b(1)] obtain evs0 where
      0: "trace w0 = trace w @ evs0" "\<forall>ev \<in> set evs0. is_purge_event ev"
         "LogWarn purge_warning \<notin> set evs0"
      by auto
    from purge_loop_trace[OF b(2)] obtain evs where
      1: "trace w' = trace w0 @ evs" "\<forall>ev \<in> set evs. is_purge_event ev"
         "LogWarn purge_warning \<in> set evs \<longrightarrow> (\<exists>c. r' = Inr c)"
      by blast
    show ?thesis
      using 0 1 b(3) by (intro exI[of _ "evs0 @ evs"]) auto
  qed
qed

text \<open>
  With a quota that is not negative, \<open>purgeOldDumps\<close> returns exactly when the lock is
  free and \<open>purge\<close>, started with the lock taken, returns.
\<close>

lemma purgeOldDumps_Some:
  "0 \<le> maximumSizeBytes \<Longrightarrow>
   purgeOldDumps fuel env storageRoot maximumSizeBytes w = Some (r, w') \<longleftrightarrow>
     ''retention'' \<notin> locks w \<and>
     (\<exists>w1. purge fuel env storageRoot maximumSizeBytes
              (w\<lparr>locks := insert ''retention'' (locks w),
                 trace := trace w @ [LockAcquire ''retention'']\<rparr>) = Some (r, w1) \<and>
           w' = w1\<lparr>locks := locks w1 - {''retention''},
                    trace := trace w1 @ [LockRelease ''retention'']\<rparr>)"
  by (auto simp: purgeOldDumps_def withLock_def split: option.splits)

subsection \<open>The scenarios, evaluated\<close>

lemma entries_retention: "entries retention_files ''/data/dbs'' = [''a@1'', ''b@1'', ''c@1'']"
  by (simp add: entries_def retention_files_def under_def)

lemma lookup_retention:
  "lookup retention_files ''/data/dbs'' = Some (Dir 0)"
  "lookup retention_files ''/data/dbs/a@1'' = Some (File 600)"
  "lookup retention_files ''/data/dbs/b@1'' = Some (File 300)"
  "lookup retention_files ''/data/dbs/c@1'' = Some (File 200)"
  by (simp_all add: lookup_def retention_files_def)

lemma join_dbs:
  "path_join [''/data'', ''dbs''] = ''/data/dbs''"
  "path_join [''/data/dbs'', ''a@1''] = ''/data/dbs/a@1''"
  "path_join [''/data/dbs'', ''b@1''] = ''/data/dbs/b@1''"
  "path_join [''/data/dbs'', ''c@1''] = ''/data/dbs/c@1''"
  "path_join [''/data'', ''dbs'', ''a@1''] = ''/data/dbs/a@1''"
  "path_join [''/data'', ''dbs'', ''b@1''] = ''/data/dbs/b@1''"
  by (simp_all add: path_simps)

lemma dirsize_retention:
  "files w = retention_files \<Longrightarrow>
   dirsize ''/data/dbs'' w =
     (Inr 1100, w\<lparr>trace := trace w @ [Readdir ''/data/dbs'', Stat ''/data/dbs/a@1'',
         Stat ''/data/dbs/b@1'', Stat ''/data/dbs/c@1'']\<rparr>)"
  by (simp add: dirsize_def fs_readdir_def entries_retention promise_all_def lookup_retention
        filesize_def prog_simps fs_stat_def join_dbs)

text \<open>
  The scenario of the specification: 1100 bytes against a quota of 1000; the oldest
  dump (600 bytes) is deleted, and the purge stops at 500 bytes.
\<close>

lemma purgeOldDumps_retention:
  "purgeOldDumps (Suc 0) demo_env ''/data'' 1000 retention_world =
     Some (Inr (), retention_after)"
  apply (simp add: purgeOldDumps_def withLock_def purge_def retention_world_def join_dbs
      demo_env_def dirsize_retention)
  apply (simp add: prog_simps dump_A_def join_dbs filesize_def fs_stat_def lookup_retention)
  apply (simp add: retention_files_def retention_after_def retention_world_def dump_A_def)
  done


section \<open>Claims about the retention enforcer\<close>






text \<open>
  Claim C8.  With a negative \<open>maximumSizeBytes\<close>, \<open>purgeOldDumps\<close> resolves at once and
  leaves the world as it was: no lock is taken, no directory is read, nothing is
  deleted, and the trace has no new call.
\<close>

theorem purgeOldDumps_negative_quota:
  assumes "maximumSizeBytes < 0"
  shows "purgeOldDumps fuel env storageRoot maximumSizeBytes w = Some (Inr (), w)"
  using assms by (simp add: purgeOldDumps_def)

theorem purgeOldDumps_negative_quota_witness:
  "(- 1 :: int) < 0 \<and>
   purgeOldDumps 0 demo_env ''/data'' (- 1) retention_world = Some (Inr (), retention_world)"
proof -
  have h: "(- 1 :: int) < 0" by simp
  from purgeOldDumps_negative_quota[OF h] h show ?thesis by blast
qed

section \<open>Concurrent invocations: the machine and the function agree\<close>

lemma purge_run_add:
  "purge_run (m + n) env sr mx c = purge_run n env sr mx (purge_run m env sr mx c)"
proof (induction m arbitrary: c)
  case 0
  then show ?case by simp
next
  case (Suc m)
  show ?case
  proof (cases "purge_step env sr mx (fst c) (snd c)")
    case None
    have stuck: "purge_run k env sr mx c = c" for k
      using None by (cases k) auto
    show ?thesis using None by (simp add: stuck)
  next
    case (Some c')
    with Suc show ?thesis by simp
  qed
qed

lemma sizing_run:
  "run_all (map (\<lambda>filename. filesize (path_join [path_join [sr, DBS_DIR env], filename])) names) w
     = (rs', w') \<Longrightarrow>
   purge_run (length names) env sr mx (Sizing names rs, w) = (Sizing [] (rs @ rs'), w')"
proof (induction names arbitrary: rs w rs' w')
  case Nil
  then show ?case by simp
next
  case (Cons a names)
  let ?f = "\<lambda>filename. filesize (path_join [path_join [sr, DBS_DIR env], filename])"
  obtain r w1 where a: "?f a w = (r, w1)" by (cases "?f a w")
  obtain rs1 w2 where b: "run_all (map ?f names) w1 = (rs1, w2)"
    by (cases "run_all (map ?f names) w1")
  from Cons.prems a b have e: "rs' = r # rs1" "w' = w2" by auto
  have s: "purge_step env sr mx (Sizing (a # names) rs) w = Some (Sizing names (rs @ [r]), w1)"
    using a by (simp add: purge_step_def)
  from Cons.IH[OF b, of "rs @ [r]"] e s show ?case by simp
qed

lemma loop_run:
  "purge_loop fuel env sr mx cur w = Some (r', w') \<Longrightarrow>
   \<exists>n. purge_run n env sr mx (LoopTest cur, w)
          = (Releasing (case r' of Inl e \<Rightarrow> Inl e | Inr c \<Rightarrow> Inr ()), w')"
proof (induction fuel arbitrary: cur w)
  case 0
  then have "\<not> cur > mx" "r' = Inr cur" "w' = w" by (auto split: if_splits)
  then have "purge_run (Suc 0) env sr mx (LoopTest cur, w) = (Releasing (Inr ()), w')"
    by (simp add: purge_step_def)
  with \<open>r' = Inr cur\<close> show ?case by (intro exI[of _ "Suc 0"]) simp
next
  case (Suc fuel)
  show ?case
  proof (cases "cur > mx")
    case False
    with Suc.prems have "r' = Inr cur" "w' = w" by auto
    with False have "purge_run (Suc 0) env sr mx (LoopTest cur, w) = (Releasing (Inr ()), w')"
      by (simp add: purge_step_def)
    with \<open>r' = Inr cur\<close> show ?thesis by (intro exI[of _ "Suc 0"]) simp
  next
    case True
    obtain r1 w1 where g: "external GetOldestPrunableDump (getOldestPrunableDump env) w = (r1, w1)"
      by (cases "external GetOldestPrunableDump (getOldestPrunableDump env) w")
    show ?thesis
    proof (cases r1)
      case (Inl e)
      with Suc.prems True g have "r' = Inl e" "w' = w1" by auto
      with True g Inl show ?thesis
        by (intro exI[of _ "Suc 0"]) (simp add: purge_step_def)
    next
      case (Inr od)
      show ?thesis
      proof (cases od)
        case None
        with Suc.prems True g Inr have "r' = Inr cur" "w' = snd (emit (LogWarn purge_warning) w1)"
          by (auto simp: emit_def)
        with True g Inr None show ?thesis
          by (intro exI[of _ "Suc 0"]) (simp add: purge_step_def emit_def)
      next
        case (Some dump)
        let ?p = "dbFilename env sr (dumpId dump) (dumpRepository dump) (dumpCommit dump)"
        let ?w2 = "w1\<lparr>trace := trace w1 @ [LogInfo ''Pruning dump'']\<rparr>"
        have s1: "purge_step env sr mx (LoopTest cur) w = Some (Selected cur dump, ?w2)"
          using True g Inr Some by (simp add: purge_step_def emit_def)
        obtain r3 w3 where f: "filesize ?p ?w2 = (r3, w3)" by (cases "filesize ?p ?w2")
        show ?thesis
        proof (cases r3)
          case (Inl e)
          with Suc.prems True g Inr Some f have "r' = Inl e" "w' = w3" by (auto simp: emit_def)
          moreover have "purge_step env sr mx (Selected cur dump) ?w2 = Some (Releasing (Inl e), w3)"
            using f Inl by (simp add: purge_step_def)
          ultimately show ?thesis
            using s1 by (intro exI[of _ "Suc (Suc 0)"]) simp
        next
          case sz: (Inr dumpSize)
          have s2: "purge_step env sr mx (Selected cur dump) ?w2 = Some (Deleting cur dump dumpSize, w3)"
            using f sz by (simp add: purge_step_def)
          obtain r4 w4 where d: "external (DeleteDump dump) (deleteDump env dump) w3 = (r4, w4)"
            by (cases "external (DeleteDump dump) (deleteDump env dump) w3")
          show ?thesis
          proof (cases r4)
            case (Inl e)
            with Suc.prems True g Inr Some f sz d have "r' = Inl e" "w' = w4" by (auto simp: emit_def)
            moreover have "purge_step env sr mx (Deleting cur dump dumpSize) w3 = Some (Releasing (Inl e), w4)"
              using d Inl by (simp add: purge_step_def)
            ultimately show ?thesis
              using s1 s2 by (intro exI[of _ "Suc (Suc (Suc 0))"]) simp
          next
            case ok: (Inr u)
            have s3: "purge_step env sr mx (Deleting cur dump dumpSize) w3 = Some (LoopTest (cur - dumpSize), w4)"
              using d ok by (simp add: purge_step_def)
            from Suc.prems True g Inr Some f sz d ok
            have rec: "purge_loop fuel env sr mx (cur - dumpSize) w4 = Some (r', w')"
              by (simp add: emit_def)
            from Suc.IH[OF rec] obtain n where
              n: "purge_run n env sr mx (LoopTest (cur - dumpSize), w4)
                    = (Releasing (case r' of Inl e \<Rightarrow> Inl e | Inr c \<Rightarrow> Inr ()), w')" by blast
            show ?thesis
              using s1 s2 s3 n by (intro exI[of _ "Suc (Suc (Suc n))"]) simp
          qed
        qed
      qed
    qed
  qed
qed

lemma dirsize_unfold:
  "dirsize d w =
     (case fs_readdir d w of
        (Inl e, w1) \<Rightarrow> (Inl e, w1)
      | (Inr names, w1) \<Rightarrow>
          (case run_all (map (\<lambda>filename. filesize (path_join [d, filename])) names) w1 of
             (rs, w2) \<Rightarrow>
               (case settle rs of Inl e \<Rightarrow> (Inl e, w2)
                | Inr sizes \<Rightarrow> (Inr (foldl (\<lambda>a b. a + b) 0 sizes), w2))))"
  by (simp add: dirsize_def await_def promise_all_def return_def split: prod.splits sum.splits)

lemma purge_run_trans:
  "purge_run m env sr mx c = c' \<Longrightarrow> purge_run n env sr mx c' = c'' \<Longrightarrow>
   purge_run (m + n) env sr mx c = c''"
  by (simp add: purge_run_add)

lemma purge_run_one:
  "purge_step env sr mx p w = Some c' \<Longrightarrow> purge_run (Suc 0) env sr mx (p, w) = c'"
  by simp

lemma measure_run:
  assumes "dirsize (path_join [sr, DBS_DIR env]) w = (r0, w0)"
  shows "\<exists>n. purge_run n env sr mx (Measure, w)
           = ((case r0 of Inl e \<Rightarrow> Releasing (Inl e) | Inr cur0 \<Rightarrow> LoopTest cur0), w0)"
proof -
  let ?d = "path_join [sr, DBS_DIR env]"
  obtain r1 w1 where rd: "fs_readdir ?d w = (r1, w1)" by (cases "fs_readdir ?d w")
  show ?thesis
  proof (cases r1)
    case (Inl e)
    with assms rd have "r0 = Inl e" "w0 = w1" by (auto simp: dirsize_unfold)
    with rd Inl show ?thesis
      by (intro exI[of _ "Suc 0"]) (simp add: purge_step_def)
  next
    case (Inr names)
    let ?f = "\<lambda>filename. filesize (path_join [?d, filename])"
    obtain rs w2 where ra: "run_all (map ?f names) w1 = (rs, w2)"
      by (cases "run_all (map ?f names) w1")
    have s1: "purge_step env sr mx Measure w = Some (Sizing names [], w1)"
      using rd Inr by (simp add: purge_step_def)
    have s2: "purge_run (length names) env sr mx (Sizing names [], w1) = (Sizing [] rs, w2)"
      using sizing_run[OF ra, of mx "[]"] by simp
    have s3: "purge_step env sr mx (Sizing [] rs) w2
                = Some ((case r0 of Inl e \<Rightarrow> Releasing (Inl e) | Inr cur0 \<Rightarrow> LoopTest cur0), w2)"
      using assms rd Inr ra by (auto simp: dirsize_unfold purge_step_def split: sum.splits)
    have w0: "w0 = w2"
      using assms rd Inr ra by (auto simp: dirsize_unfold split: sum.splits)
    from purge_run_trans[OF purge_run_trans[OF purge_run_one[OF s1] s2] purge_run_one[OF s3]] w0
    show ?thesis by blast
  qed
qed

lemma purge_run_from_measure:
  assumes "purge fuel env sr mx w = Some (r, w')"
  shows "\<exists>n. purge_run n env sr mx (Measure, w) = (Releasing r, w')"
proof -
  from assms consider
    (a) e where "r = Inl e" "dirsize (path_join [sr, DBS_DIR env]) w = (Inl e, w')"
  | (b) cur0 w0 r' where "dirsize (path_join [sr, DBS_DIR env]) w = (Inr cur0, w0)"
        "purge_loop fuel env sr mx cur0 w0 = Some (r', w')"
        "r = (case r' of Inl e \<Rightarrow> Inl e | Inr c \<Rightarrow> Inr ())"
    unfolding purge_Some by blast
  then show ?thesis
  proof cases
    case a
    from measure_run[OF a(2), of mx] a(1) show ?thesis by simp
  next
    case b
    from measure_run[OF b(1), of mx] obtain n where
      n: "purge_run n env sr mx (Measure, w) = (LoopTest cur0, w0)" by auto
    from loop_run[OF b(2)] b(3) obtain m where
      m: "purge_run m env sr mx (LoopTest cur0, w0) = (Releasing r, w')" by auto
    from purge_run_trans[OF n m] show ?thesis by blast
  qed
qed

text \<open>
  Every run of \<open>purgeOldDumps\<close> that returns is a run of the machine from \<open>Start\<close> to
  \<open>Finished\<close>, with the same result and the same world.
\<close>

lemma purge_run_agrees:
  assumes "purgeOldDumps fuel env sr mx w = Some (r, w')"
  shows "\<exists>n. purge_run n env sr mx (Start, w) = (Finished r, w')"
proof (cases "mx < 0")
  case True
  with assms show ?thesis
    by (intro exI[of _ "Suc 0"]) (simp add: purgeOldDumps_def purge_step_def)
next
  case False
  let ?w = "w\<lparr>locks := insert ''retention'' (locks w), trace := trace w @ [LockAcquire ''retention'']\<rparr>"
  from False assms obtain w1 where
    f: "''retention'' \<notin> locks w"
    and p: "purge fuel env sr mx ?w = Some (r, w1)"
    and w': "w' = w1\<lparr>locks := locks w1 - {''retention''}, trace := trace w1 @ [LockRelease ''retention'']\<rparr>"
    by (auto simp: purgeOldDumps_Some)
  have s1: "purge_step env sr mx Start w = Some (Measure, ?w)"
    using False f by (simp add: purge_step_def)
  from purge_run_from_measure[OF p] obtain n where
    n: "purge_run n env sr mx (Measure, ?w) = (Releasing r, w1)" by blast
  have s3: "purge_step env sr mx (Releasing r) w1 = Some (Finished r, w')"
    using w' by (simp add: purge_step_def)
  from purge_run_trans[OF purge_run_trans[OF purge_run_one[OF s1] n] purge_run_one[OF s3]]
  show ?thesis by blast
qed

text \<open>More fuel changes nothing for a loop that returned.\<close>

lemma purge_loop_mono:
  "purge_loop fuel env sr mx cur w = Some x \<Longrightarrow> purge_loop (fuel + k) env sr mx cur w = Some x"
proof (induction fuel arbitrary: cur w)
  case 0
  then show ?case by (cases k) (auto split: if_splits)
next
  case (Suc fuel)
  show ?case
  proof (cases "cur > mx")
    case False
    with Suc.prems show ?thesis by simp
  next
    case True
    with Suc.prems Suc.IH show ?thesis
      by (auto split: prod.splits sum.splits option.splits)
  qed
qed

lemma purge_run_Finished [simp]:
  "purge_run n env sr mx (Finished r, w) = (Finished r, w)"
  by (cases n) (simp_all add: purge_step_def)

lemma purge_run_Releasing:
  "purge_run n env sr mx (Releasing r0, w0) = (Releasing r, w') \<Longrightarrow> n = 0 \<and> r = r0 \<and> w' = w0"
  by (cases n) (simp_all add: purge_step_def)

lemma loop_complete:
  "purge_run n env sr mx (LoopTest cur, w) = (Releasing r, w') \<Longrightarrow>
   \<exists>r'. purge_loop n env sr mx cur w = Some (r', w') \<and>
        r = (case r' of Inl e \<Rightarrow> Inl e | Inr c \<Rightarrow> Inr ())"
proof (induction n arbitrary: cur w rule: less_induct)
  case (less n)
  show ?case
  proof (cases n)
    case 0
    with less.prems show ?thesis by simp
  next
    case n1: (Suc n1)
    show ?thesis
    proof (cases "cur > mx")
      case False
      with less.prems n1 have "purge_run n1 env sr mx (Releasing (Inr ()), w) = (Releasing r, w')"
        by (simp add: purge_step_def)
      from purge_run_Releasing[OF this] False n1 show ?thesis by simp
    next
      case True
      obtain r1 w1 where g: "external GetOldestPrunableDump (getOldestPrunableDump env) w = (r1, w1)"
        by (cases "external GetOldestPrunableDump (getOldestPrunableDump env) w")
      show ?thesis
      proof (cases r1)
        case (Inl e)
        with less.prems n1 True g have "purge_run n1 env sr mx (Releasing (Inl e), w1) = (Releasing r, w')"
          by (simp add: purge_step_def)
        from purge_run_Releasing[OF this] True n1 g Inl show ?thesis by simp
      next
        case (Inr od)
        show ?thesis
        proof (cases od)
          case None
          with less.prems n1 True g Inr
          have "purge_run n1 env sr mx (Releasing (Inr ()), snd (emit (LogWarn purge_warning) w1))
                  = (Releasing r, w')"
            by (simp add: purge_step_def emit_def)
          from purge_run_Releasing[OF this] True n1 g Inr None show ?thesis
            by (simp add: emit_def)
        next
          case (Some dump)
          let ?p = "dbFilename env sr (dumpId dump) (dumpRepository dump) (dumpCommit dump)"
          let ?w2 = "w1\<lparr>trace := trace w1 @ [LogInfo ''Pruning dump'']\<rparr>"
          from less.prems n1 True g Inr Some
          have r2: "purge_run n1 env sr mx (Selected cur dump, ?w2) = (Releasing r, w')"
            by (simp add: purge_step_def emit_def)
          then obtain n2 where n2: "n1 = Suc n2" by (cases n1) auto
          obtain r3 w3 where f: "filesize ?p ?w2 = (r3, w3)" by (cases "filesize ?p ?w2")
          show ?thesis
          proof (cases r3)
            case (Inl e)
            with r2 n2 f have "purge_run n2 env sr mx (Releasing (Inl e), w3) = (Releasing r, w')"
              by (simp add: purge_step_def)
            from purge_run_Releasing[OF this] True n1 n2 g Inr Some f Inl show ?thesis
              by (simp add: emit_def)
          next
            case sz: (Inr dumpSize)
            with r2 n2 f
            have r3: "purge_run n2 env sr mx (Deleting cur dump dumpSize, w3) = (Releasing r, w')"
              by (simp add: purge_step_def)
            then obtain n3 where n3: "n2 = Suc n3" by (cases n2) auto
            obtain r4 w4 where d: "external (DeleteDump dump) (deleteDump env dump) w3 = (r4, w4)"
              by (cases "external (DeleteDump dump) (deleteDump env dump) w3")
            show ?thesis
            proof (cases r4)
              case (Inl e)
              with r3 n3 d have "purge_run n3 env sr mx (Releasing (Inl e), w4) = (Releasing r, w')"
                by (simp add: purge_step_def)
              from purge_run_Releasing[OF this] True n1 n2 n3 g Inr Some f sz d Inl show ?thesis
                by (simp add: emit_def)
            next
              case ok: (Inr u)
              with r3 n3 d
              have r4: "purge_run n3 env sr mx (LoopTest (cur - dumpSize), w4) = (Releasing r, w')"
                by (simp add: purge_step_def)
              have "n3 < n" using n1 n2 n3 by simp
              from less.IH[OF this r4] obtain r' where
                l: "purge_loop n3 env sr mx (cur - dumpSize) w4 = Some (r', w')"
                and rr: "r = (case r' of Inl e \<Rightarrow> Inl e | Inr c \<Rightarrow> Inr ())" by blast
              from purge_loop_mono[OF l, of 2] n2 n3
              have "purge_loop n1 env sr mx (cur - dumpSize) w4 = Some (r', w')" by simp
              with True n1 g Inr Some f sz d ok rr show ?thesis
                by (simp add: emit_def)
            qed
          qed
        qed
      qed
    qed
  qed
qed

lemma sizing_stays:
  "n \<le> length names \<Longrightarrow>
   \<exists>rest rs' w'. purge_run n env sr mx (Sizing names rs, w) = (Sizing rest rs', w')"
proof (induction n arbitrary: names rs w)
  case 0
  then show ?case by simp
next
  case (Suc n)
  then obtain name rest where names: "names = name # rest" by (cases names) auto
  let ?p = "path_join [path_join [sr, DBS_DIR env], name]"
  obtain r w1 where f: "filesize ?p w = (r, w1)" by (cases "filesize ?p w")
  from Suc.prems names have "n \<le> length rest" by simp
  from Suc.IH[OF this, of "rs @ [r]" w1] names f show ?case
    by (simp add: purge_step_def)
qed

lemma measure_complete:
  assumes "purge_run n env sr mx (Measure, w) = (Releasing r, w')"
  shows "purge n env sr mx w = Some (r, w')"
proof -
  let ?d = "path_join [sr, DBS_DIR env]"
  from assms obtain n1 where n1: "n = Suc n1" by (cases n) auto
  obtain r1 w1 where rd: "fs_readdir ?d w = (r1, w1)" by (cases "fs_readdir ?d w")
  show ?thesis
  proof (cases r1)
    case (Inl e)
    with assms n1 rd have "purge_run n1 env sr mx (Releasing (Inl e), w1) = (Releasing r, w')"
      by (simp add: purge_step_def)
    from purge_run_Releasing[OF this] rd Inl show ?thesis
      by (simp add: purge_def dirsize_unfold)
  next
    case (Inr names)
    let ?f = "\<lambda>filename. filesize (path_join [?d, filename])"
    obtain rs w2 where ra: "run_all (map ?f names) w1 = (rs, w2)"
      by (cases "run_all (map ?f names) w1")
    from assms n1 rd Inr
    have s: "purge_run n1 env sr mx (Sizing names [], w1) = (Releasing r, w')"
      by (simp add: purge_step_def)
    have ge: "length names < n1"
    proof (rule ccontr)
      assume "\<not> length names < n1"
      then have "n1 \<le> length names" by simp
      from sizing_stays[OF this, of env sr mx "[]" w1] s show False by auto
    qed
    then obtain m where m: "n1 = length names + Suc m"
      using less_imp_Suc_add[of "length names" n1] by auto
    have sr: "purge_run (length names) env sr mx (Sizing names [], w1) = (Sizing [] rs, w2)"
      using sizing_run[OF ra, of mx "[]"] by simp
    have "purge_run (length names + Suc m) env sr mx (Sizing names [], w1)
            = purge_run (Suc m) env sr mx (purge_run (length names) env sr mx (Sizing names [], w1))"
      by (rule purge_run_add)
    with s m sr have s2: "purge_run (Suc m) env sr mx (Sizing [] rs, w2) = (Releasing r, w')"
      by (simp only:)
    show ?thesis
    proof (cases "settle rs")
      case (Inl e)
      with s2 have "purge_run m env sr mx (Releasing (Inl e), w2) = (Releasing r, w')"
        by (simp add: purge_step_def)
      from purge_run_Releasing[OF this] rd Inr ra Inl show ?thesis
        by (simp add: purge_def dirsize_unfold)
    next
      case sizes: (Inr sizes)
      with s2 have "purge_run m env sr mx (LoopTest (foldl (\<lambda>a b. a + b) 0 sizes), w2)
                      = (Releasing r, w')"
        by (simp add: purge_step_def)
      from loop_complete[OF this] obtain r' where
        l: "purge_loop m env sr mx (foldl (\<lambda>a b. a + b) 0 sizes) w2 = Some (r', w')"
        and rr: "r = (case r' of Inl e \<Rightarrow> Inl e | Inr c \<Rightarrow> Inr ())" by blast
      have "n = m + (length names + 2)" using n1 m by simp
      with purge_loop_mono[OF l, of "length names + 2"]
      have "purge_loop n env sr mx (foldl (\<lambda>a b. a + b) 0 sizes) w2 = Some (r', w')" by simp
      with rd Inr ra sizes rr show ?thesis
        by (cases r') (simp_all add: purge_def dirsize_unfold)
    qed
  qed
qed

lemma purge_mono:
  assumes "purge fuel env sr mx w = Some x"
  shows "purge (fuel + k) env sr mx w = Some x"
proof -
  obtain r w' where x: "x = (r, w')" by (cases x)
  from assms have "purge fuel env sr mx w = Some (r, w')" by (simp add: x)
  then consider
    (a) e where "r = Inl e" "dirsize (path_join [sr, DBS_DIR env]) w = (Inl e, w')"
  | (b) cur0 w0 r' where "dirsize (path_join [sr, DBS_DIR env]) w = (Inr cur0, w0)"
        "purge_loop fuel env sr mx cur0 w0 = Some (r', w')"
        "r = (case r' of Inl e \<Rightarrow> Inl e | Inr c \<Rightarrow> Inr ())"
    unfolding purge_Some by blast
  then show ?thesis
  proof cases
    case a
    then show ?thesis unfolding x purge_Some by blast
  next
    case b
    from purge_loop_mono[OF b(2), of k] b(1,3) show ?thesis
      unfolding x purge_Some by blast
  qed
qed

lemma purge_step_inside:
  assumes "purge_step env sr mx p w = Some (p1, w1)" and "in_critical_section p"
    and "\<forall>r0. p \<noteq> Releasing r0"
  shows "in_critical_section p1"
proof (cases p)
  case Start
  with assms(2) show ?thesis by (simp add: in_critical_section_def)
next
  case Measure
  with assms(1) show ?thesis
    by (auto simp: purge_step_def in_critical_section_def split: prod.splits sum.splits)
next
  case (Sizing names rs)
  with assms(1) show ?thesis
    by (cases names)
       (auto simp: purge_step_def in_critical_section_def split: prod.splits sum.splits)
next
  case (LoopTest cur)
  with assms(1) show ?thesis
    by (auto simp: purge_step_def in_critical_section_def emit_def
        split: prod.splits sum.splits option.splits if_splits)
next
  case (Selected cur dump)
  with assms(1) show ?thesis
    by (auto simp: purge_step_def in_critical_section_def split: prod.splits sum.splits)
next
  case (Deleting cur dump sz)
  with assms(1) show ?thesis
    by (auto simp: purge_step_def in_critical_section_def split: prod.splits sum.splits)
next
  case (Releasing r)
  with assms(3) show ?thesis by simp
next
  case (Finished r)
  with assms(2) show ?thesis by (simp add: in_critical_section_def)
qed

text \<open>From inside the critical section the machine finishes only through \<open>Releasing\<close>.\<close>

lemma finish_through_release:
  "purge_run n env sr mx (p, w) = (Finished r, w') \<Longrightarrow> in_critical_section p \<Longrightarrow>
   \<exists>m w1. m < n \<and> purge_run m env sr mx (p, w) = (Releasing r, w1) \<and>
     w' = w1\<lparr>locks := locks w1 - {''retention''}, trace := trace w1 @ [LockRelease ''retention'']\<rparr>"
proof (induction n arbitrary: p w)
  case 0
  then show ?case by (simp add: in_critical_section_def)
next
  case (Suc n)
  show ?case
  proof (cases "\<exists>r0. p = Releasing r0")
    case True
    then obtain r0 where p: "p = Releasing r0" by blast
    with Suc.prems(1) have "r0 = r"
      "w' = w\<lparr>locks := locks w - {''retention''}, trace := trace w @ [LockRelease ''retention'']\<rparr>"
      by (simp_all add: purge_step_def)
    with p show ?thesis by (intro exI[of _ 0] exI[of _ w]) simp
  next
    case False
    show ?thesis
    proof (cases "purge_step env sr mx p w")
      case None
      with Suc.prems show ?thesis by (simp add: in_critical_section_def)
    next
      case (Some c)
      obtain p1 w1 where c: "c = (p1, w1)" by (cases c)
      from Some c False Suc.prems(2) have cs: "in_critical_section p1"
        by (intro purge_step_inside[of env sr mx p w p1 w1]) auto
      from Suc.prems(1) Some c have "purge_run n env sr mx (p1, w1) = (Finished r, w')" by simp
      from Suc.IH[OF this cs] obtain m w2 where
        "m < n" "purge_run m env sr mx (p1, w1) = (Releasing r, w2)"
        "w' = w2\<lparr>locks := locks w2 - {''retention''}, trace := trace w2 @ [LockRelease ''retention'']\<rparr>"
        by blast
      with Some c show ?thesis
        by (intro exI[of _ "Suc m"] exI[of _ w2]) simp
    qed
  qed
qed

text \<open>
  Conversely, a run of the machine from \<open>Start\<close> to \<open>Finished\<close> in \<open>n\<close> steps is a run of
  \<open>purgeOldDumps\<close> with fuel \<open>n\<close>, with the same result and the same world.
\<close>

lemma purge_run_complete:
  assumes "purge_run n env sr mx (Start, w) = (Finished r, w')"
  shows "purgeOldDumps n env sr mx w = Some (r, w')"
proof (cases "mx < 0")
  case True
  from assms obtain n1 where "n = Suc n1" by (cases n) auto
  with assms True show ?thesis
    by (simp add: purge_step_def purgeOldDumps_def)
next
  case False
  from assms obtain n1 where n1: "n = Suc n1" by (cases n) auto
  let ?w = "w\<lparr>locks := insert ''retention'' (locks w), trace := trace w @ [LockAcquire ''retention'']\<rparr>"
  have free: "''retention'' \<notin> locks w"
  proof
    assume "''retention'' \<in> locks w"
    with False have "purge_step env sr mx Start w = None" by (simp add: purge_step_def)
    with assms n1 show False by simp
  qed
  with assms n1 False have "purge_run n1 env sr mx (Measure, ?w) = (Finished r, w')"
    by (simp add: purge_step_def)
  from finish_through_release[OF this] obtain m w1 where
    m: "m < n1" and rel: "purge_run m env sr mx (Measure, ?w) = (Releasing r, w1)"
    and w': "w' = w1\<lparr>locks := locks w1 - {''retention''}, trace := trace w1 @ [LockRelease ''retention'']\<rparr>"
    by (auto simp: in_critical_section_def)
  from measure_complete[OF rel] have "purge m env sr mx ?w = Some (r, w1)" .
  from purge_mono[OF this, of "n - m"] m n1 have "purge n env sr mx ?w = Some (r, w1)" by simp
  with False free w' show ?thesis
    by (simp add: purgeOldDumps_def withLock_def)
qed

lemma purge_run_iff:
  "(\<exists>fuel. purgeOldDumps fuel env sr mx w = Some (r, w')) \<longleftrightarrow>
   (\<exists>n. purge_run n env sr mx (Start, w) = (Finished r, w'))"
  using purge_run_agrees purge_run_complete by blast

section \<open>Concurrent invocations: mutual exclusion\<close>

lemma serial_from_append:
  "serial_from h (xs @ ys) = (case serial_from h xs of None \<Rightarrow> None | Some h' \<Rightarrow> serial_from h' ys)"
proof (induction xs arbitrary: h)
  case Nil
  then show ?case by simp
next
  case (Cons x xs)
  obtain i ev where x: "x = (i, ev)" by (cases x)
  show ?case unfolding x by (cases ev) (simp_all add: Cons.IH)
qed

lemma serial_from_purge_events:
  "\<forall>ev \<in> set evs. is_purge_event ev \<Longrightarrow> serial_from (Some i) (map (Pair i) evs) = Some (Some i)"
proof (induction evs)
  case Nil
  then show ?case by simp
next
  case (Cons ev evs)
  then have "is_purge_event ev" by simp
  with Cons show ?case by (cases ev) (simp_all add: is_purge_event_def)
qed

text \<open>What one step of the machine does to the lock and to the trace.\<close>

lemma purge_step_cases:
  assumes "keeps_retention_lock env" and "purge_step env sr mx p w = Some (p', w')"
  shows "(p = Start \<and> (\<exists>r. p' = Finished r) \<and> w' = w)
       \<or> (p = Start \<and> p' = Measure \<and> ''retention'' \<notin> locks w \<and>
          locks w' = insert ''retention'' (locks w) \<and>
          trace w' = trace w @ [LockAcquire ''retention''])
       \<or> (in_critical_section p \<and> in_critical_section p' \<and>
          (''retention'' \<in> locks w \<longrightarrow> ''retention'' \<in> locks w') \<and>
          (\<exists>evs. trace w' = trace w @ evs \<and> (\<forall>ev \<in> set evs. is_purge_event ev)))
       \<or> (in_critical_section p \<and> (\<exists>r. p' = Finished r) \<and>
          locks w' = locks w - {''retention''} \<and>
          trace w' = trace w @ [LockRelease ''retention''])"
proof -
  have inside: ?thesis
    if "in_critical_section p" "in_critical_section p'"
       "''retention'' \<in> locks w \<longrightarrow> ''retention'' \<in> locks w'"
       "trace w' = trace w @ evs" "\<forall>ev \<in> set evs. is_purge_event ev" for evs
    using that by blast
  show ?thesis
  proof (cases p)
  case Start
  with assms(2) show ?thesis by (auto simp: purge_step_def split: if_splits)
next
  case Measure
  obtain r1 w1 where rd: "fs_readdir (path_join [sr, DBS_DIR env]) w = (r1, w1)"
    by (cases "fs_readdir (path_join [sr, DBS_DIR env]) w")
  from readdir_world[OF rd] have "locks w1 = locks w" "trace w1 = trace w @ [Readdir (path_join [sr, DBS_DIR env])]"
    by simp_all
  moreover from assms(2) Measure rd have "w' = w1" "in_critical_section p'"
    by (auto simp: purge_step_def in_critical_section_def split: sum.splits)
  ultimately show ?thesis
    using Measure
    by (intro inside[of "[Readdir (path_join [sr, DBS_DIR env])]"])
       (auto simp: in_critical_section_def is_purge_event_def)
next
  case (Sizing names rs)
  show ?thesis
  proof (cases names)
    case Nil
    with assms(2) Sizing have "w' = w" "in_critical_section p'"
      by (auto simp: purge_step_def in_critical_section_def split: sum.splits)
    with Sizing show ?thesis
      by (intro inside[of "[]"]) (auto simp: in_critical_section_def)
  next
    case (Cons name rest)
    let ?p = "path_join [path_join [sr, DBS_DIR env], name]"
    obtain r1 w1 where f: "filesize ?p w = (r1, w1)" by (cases "filesize ?p w")
    from filesize_world[OF f] have "locks w1 = locks w" "trace w1 = trace w @ [Stat ?p]" by simp_all
    moreover from assms(2) Sizing Cons f have "w' = w1" "in_critical_section p'"
      by (auto simp: purge_step_def in_critical_section_def)
    ultimately show ?thesis
      using Sizing
      by (intro inside[of "[Stat ?p]"]) (auto simp: in_critical_section_def is_purge_event_def)
  qed
next
  case (LoopTest cur)
  show ?thesis
  proof (cases "cur > mx")
    case False
    with assms(2) LoopTest have "w' = w" "in_critical_section p'"
      by (auto simp: purge_step_def in_critical_section_def)
    with LoopTest show ?thesis
      by (intro inside[of "[]"]) (auto simp: in_critical_section_def)
  next
    case True
    obtain r0 w0 where g0: "getOldestPrunableDump env w = (r0, w0)"
      by (cases "getOldestPrunableDump env w")
    with assms(1) have l0: "''retention'' \<in> locks w \<longrightarrow> ''retention'' \<in> locks w0"
      by (metis keeps_retention_lock_def snd_conv)
    from g0 have g: "external GetOldestPrunableDump (getOldestPrunableDump env) w
                      = (r0, w0\<lparr>trace := trace w @ [GetOldestPrunableDump]\<rparr>)"
      by (simp add: external_def)
    from assms(2) LoopTest True g have
      "in_critical_section p'" "locks w' = locks w0"
      "trace w' = trace w @ [GetOldestPrunableDump]
       \<or> trace w' = trace w @ [GetOldestPrunableDump, LogWarn purge_warning]
       \<or> trace w' = trace w @ [GetOldestPrunableDump, LogInfo ''Pruning dump'']"
      by (auto simp: purge_step_def in_critical_section_def emit_def split: sum.splits option.splits)
    with l0 LoopTest show ?thesis
      by (intro inside[of "drop (length (trace w)) (trace w')"])
         (auto simp: in_critical_section_def is_purge_event_def)
  qed
next
  case (Selected cur dump)
  let ?p = "dbFilename env sr (dumpId dump) (dumpRepository dump) (dumpCommit dump)"
  obtain r1 w1 where f: "filesize ?p w = (r1, w1)" by (cases "filesize ?p w")
  from filesize_world[OF f] have "locks w1 = locks w" "trace w1 = trace w @ [Stat ?p]" by simp_all
  moreover from assms(2) Selected f have "w' = w1" "in_critical_section p'"
    by (auto simp: purge_step_def in_critical_section_def split: sum.splits)
  ultimately show ?thesis
    using Selected
    by (intro inside[of "[Stat ?p]"]) (auto simp: in_critical_section_def is_purge_event_def)
next
  case (Deleting cur dump dumpSize)
  obtain r0 w0 where d0: "deleteDump env dump w = (r0, w0)" by (cases "deleteDump env dump w")
  with assms(1) have l0: "''retention'' \<in> locks w \<longrightarrow> ''retention'' \<in> locks w0"
    by (metis keeps_retention_lock_def snd_conv)
  from d0 have d: "external (DeleteDump dump) (deleteDump env dump) w
                    = (r0, w0\<lparr>trace := trace w @ [DeleteDump dump]\<rparr>)"
    by (simp add: external_def)
  from assms(2) Deleting d have "in_critical_section p'" "locks w' = locks w0"
      "trace w' = trace w @ [DeleteDump dump]"
    by (auto simp: purge_step_def in_critical_section_def split: sum.splits)
  with l0 Deleting show ?thesis
    by (intro inside[of "[DeleteDump dump]"])
       (auto simp: in_critical_section_def is_purge_event_def)
next
  case (Releasing r)
  with assms(2) show ?thesis
    by (auto simp: purge_step_def in_critical_section_def)
next
  case (Finished r)
  with assms(2) show ?thesis by (simp add: purge_step_def)
qed
qed

lemma exclusion_invariant_step:
  assumes kl: "keeps_retention_lock env" and inv: "exclusion_invariant calls sys"
  shows "exclusion_invariant calls (worker_step env calls sys i)"
proof (cases "i < length calls \<and> i < length (pcs sys)")
  case False
  then have "worker_step env calls sys i = sys" by (auto simp: worker_step_def)
  with inv show ?thesis by simp
next
  case True
  then have i: "i < length calls" by simp
  let ?sr = "fst (calls ! i)" and ?mx = "snd (calls ! i)"
  let ?p = "pcs sys ! i" and ?w = "shared sys"
  from inv obtain h where
    len: "length (pcs sys) = length calls"
    and h: "serial_from None (journal sys) = Some h"
    and cs: "\<forall>k < length calls. in_critical_section (pcs sys ! k) \<longleftrightarrow> h = Some k"
    and lk: "h \<noteq> None \<longrightarrow> ''retention'' \<in> locks (shared sys)"
    unfolding exclusion_invariant_def by blast
  show ?thesis
  proof (cases "purge_step env ?sr ?mx ?p ?w")
    case None
    with True have "worker_step env calls sys i = sys" by (simp add: worker_step_def)
    with inv show ?thesis by simp
  next
    case (Some c)
    obtain p' w' where c: "c = (p', w')" by (cases c)
    let ?sys' = "\<lparr>pcs = (pcs sys)[i := p'], shared = w',
                   journal = journal sys @ map (Pair i) (drop (length (trace ?w)) (trace w'))\<rparr>"
    have ws: "worker_step env calls sys i = ?sys'"
      using True Some c by (simp add: worker_step_def)
    have nth: "\<And>k. k < length calls \<Longrightarrow> (pcs sys)[i := p'] ! k = (if k = i then p' else pcs sys ! k)"
      using len by (simp add: nth_list_update)
    from Some c have st: "purge_step env ?sr ?mx ?p ?w = Some (p', w')" by simp
    from purge_step_cases[OF kl st]
    consider
      (skip) "?p = Start" "\<exists>r. p' = Finished r" "w' = ?w"
    | (enter) "?p = Start" "p' = Measure" "''retention'' \<notin> locks ?w"
        "locks w' = insert ''retention'' (locks ?w)"
        "trace w' = trace ?w @ [LockAcquire ''retention'']"
    | (inside) evs where "in_critical_section ?p" "in_critical_section p'"
        "''retention'' \<in> locks ?w \<longrightarrow> ''retention'' \<in> locks w'"
        "trace w' = trace ?w @ evs" "\<forall>ev \<in> set evs. is_purge_event ev"
    | (leave) "in_critical_section ?p" "\<exists>r. p' = Finished r"
        "locks w' = locks ?w - {''retention''}"
        "trace w' = trace ?w @ [LockRelease ''retention'']"
      by blast
    then have "exclusion_invariant calls ?sys'"
    proof cases
      case skip
      have a: "\<not> in_critical_section ?p" "\<not> in_critical_section p'"
        using skip by (auto simp: in_critical_section_def)
      have "\<forall>k < length calls. in_critical_section ((pcs sys)[i := p'] ! k) \<longleftrightarrow> h = Some k"
        using cs a i by (auto simp: nth)
      with len h lk skip(3) show ?thesis
        unfolding exclusion_invariant_def by auto
    next
      case enter
      from enter(3) lk have hn: "h = None" by auto
      have j: "serial_from None (journal sys @ map (Pair i) (drop (length (trace ?w)) (trace w')))
                 = Some (Some i)"
        using h hn enter(5) by (simp add: serial_from_append)
      have a: "in_critical_section p'" using enter(2) by (simp add: in_critical_section_def)
      have "\<forall>k < length calls. in_critical_section ((pcs sys)[i := p'] ! k) \<longleftrightarrow> Some i = Some k"
        using cs hn a i by (auto simp: nth)
      with len j enter(4) show ?thesis
        unfolding exclusion_invariant_def by auto
    next
      case inside
      from inside(1) cs i have hi: "h = Some i" by auto
      have j: "serial_from None (journal sys @ map (Pair i) (drop (length (trace ?w)) (trace w')))
                 = Some (Some i)"
        using h hi inside(4,5) by (simp add: serial_from_append serial_from_purge_events)
      have "\<forall>k < length calls. in_critical_section ((pcs sys)[i := p'] ! k) \<longleftrightarrow> Some i = Some k"
        using cs hi inside(2) i by (auto simp: nth)
      with len j inside(3) lk hi show ?thesis
        unfolding exclusion_invariant_def by auto
    next
      case leave
      from leave(1) cs i have hi: "h = Some i" by auto
      have j: "serial_from None (journal sys @ map (Pair i) (drop (length (trace ?w)) (trace w')))
                 = Some None"
        using h hi leave(4) by (simp add: serial_from_append)
      have a: "\<not> in_critical_section p'" using leave(2) by (auto simp: in_critical_section_def)
      have "\<forall>k < length calls. in_critical_section ((pcs sys)[i := p'] ! k) \<longleftrightarrow> None = Some k"
        using cs hi a i by (auto simp: nth)
      with len j leave(3) show ?thesis
        unfolding exclusion_invariant_def by auto
    qed
    with ws show ?thesis by simp
  qed
qed

lemma exclusion_invariant_foldl:
  "keeps_retention_lock env \<Longrightarrow> exclusion_invariant calls sys \<Longrightarrow>
   exclusion_invariant calls (foldl (worker_step env calls) sys schedule)"
  by (induction schedule arbitrary: sys) (simp_all add: exclusion_invariant_step)

lemma exclusion_invariant_initial:
  "exclusion_invariant calls \<lparr>pcs = replicate (length calls) Start, shared = w, journal = []\<rparr>"
  by (simp add: exclusion_invariant_def in_critical_section_def)

text \<open>
  Claim C3.
  (1) With a quota that is not negative, a call of \<open>purgeOldDumps\<close> that returns found
  the lock \<open>retention\<close> free and leaves it free; what it added to the trace is the
  taking of the lock \<open>retention\<close>, then the calls of the measurement and of the loop,
  then the giving back of the lock; and the call is a run of the step machine from
  \<open>Start\<close> to \<open>Finished\<close>.
  (2) Let the dump manager never release the lock \<open>retention\<close>.  Then in every
  interleaving of any number of concurrent invocations, from any world, the journal
  is serialized (every directory read, file sizing, selection and deletion of
  an invocation lies between its taking of the lock and its giving it back, with no
  call of another invocation in between), and at no moment are two invocations in
  their critical sections.
\<close>

theorem purgeOldDumps_serialized:
  "(0 \<le> maximumSizeBytes \<and>
    purgeOldDumps fuel env storageRoot maximumSizeBytes w = Some (r, w')
    \<longrightarrow> ''retention'' \<notin> locks w \<and> ''retention'' \<notin> locks w' \<and>
        (\<exists>inner. trace w' = trace w @ [LockAcquire ''retention''] @ inner
                               @ [LockRelease ''retention''] \<and>
                 (\<forall>ev \<in> set inner. is_purge_event ev)) \<and>
        (\<exists>n. purge_run n env storageRoot maximumSizeBytes (Start, w) = (Finished r, w')))
   \<and> (keeps_retention_lock env
    \<longrightarrow> serialized (journal (interleave env calls schedule v)) \<and>
        (\<forall>i j. i < length calls \<and> j < length calls \<and>
           in_critical_section (pcs (interleave env calls schedule v) ! i) \<and>
           in_critical_section (pcs (interleave env calls schedule v) ! j) \<longrightarrow> i = j))"
proof (intro conjI impI)
  assume a: "0 \<le> maximumSizeBytes \<and>
    purgeOldDumps fuel env storageRoot maximumSizeBytes w = Some (r, w')"
  then obtain w1 where
    f: "''retention'' \<notin> locks w"
    and p: "purge fuel env storageRoot maximumSizeBytes
              (w\<lparr>locks := insert ''retention'' (locks w),
                 trace := trace w @ [LockAcquire ''retention'']\<rparr>) = Some (r, w1)"
    and w': "w' = w1\<lparr>locks := locks w1 - {''retention''},
                      trace := trace w1 @ [LockRelease ''retention'']\<rparr>"
    by (auto simp: purgeOldDumps_Some)
  from purge_trace[OF p] obtain evs where
    e: "trace w1 = trace w @ [LockAcquire ''retention''] @ evs"
       "\<forall>ev \<in> set evs. is_purge_event ev"
    by auto
  show "''retention'' \<notin> locks w" by (rule f)
  show "''retention'' \<notin> locks w'" using w' by simp
  show "\<exists>inner. trace w' = trace w @ [LockAcquire ''retention''] @ inner
                               @ [LockRelease ''retention''] \<and>
                 (\<forall>ev \<in> set inner. is_purge_event ev)"
    using e w' by auto
  show "\<exists>n. purge_run n env storageRoot maximumSizeBytes (Start, w) = (Finished r, w')"
    using a purge_run_agrees by blast
next
  assume a: "keeps_retention_lock env"
  have "exclusion_invariant calls (interleave env calls schedule v)"
    unfolding interleave_def
    using a by (intro exclusion_invariant_foldl exclusion_invariant_initial)
  then show "serialized (journal (interleave env calls schedule v))"
    and "\<forall>i j. i < length calls \<and> j < length calls \<and>
           in_critical_section (pcs (interleave env calls schedule v) ! i) \<and>
           in_critical_section (pcs (interleave env calls schedule v) ! j) \<longrightarrow> i = j"
    unfolding exclusion_invariant_def serialized_def by auto
qed

lemma interleave_two:
  "interleave demo_env two_calls [0, Suc 0] retention_world =
     \<lparr>pcs = [Measure, Start],
      shared = retention_world\<lparr>locks := {''retention''}, trace := [LockAcquire ''retention'']\<rparr>,
      journal = [(0, LockAcquire ''retention'')]\<rparr>"
  by (simp add: interleave_def worker_step_def purge_step_def two_calls_def retention_world_def)

text \<open>
  The retention scenario, and two concurrent invocations of it: the first takes the
  lock, the second is scheduled next and has to wait at \<open>Start\<close>.
\<close>

theorem purgeOldDumps_serialized_witness:
  "(0::int) \<le> 1000 \<and>
   purgeOldDumps (Suc 0) demo_env ''/data'' 1000 retention_world = Some (Inr (), retention_after) \<and>
   (\<exists>inner. trace retention_after = trace retention_world @ [LockAcquire ''retention''] @ inner
                                      @ [LockRelease ''retention''] \<and>
            (\<forall>ev \<in> set inner. is_purge_event ev)) \<and>
   keeps_retention_lock demo_env \<and>
   pcs (interleave demo_env two_calls [0, Suc 0] retention_world) = [Measure, Start] \<and>
   in_critical_section (pcs (interleave demo_env two_calls [0, Suc 0] retention_world) ! 0) \<and>
   \<not> in_critical_section (pcs (interleave demo_env two_calls [0, Suc 0] retention_world) ! Suc 0) \<and>
   serialized (journal (interleave demo_env two_calls [0, Suc 0] retention_world))"
proof -
  have q: "(0::int) \<le> 1000" by simp
  have run: "purgeOldDumps (Suc 0) demo_env ''/data'' 1000 retention_world
               = Some (Inr (), retention_after)"
    by (rule purgeOldDumps_retention)
  have p1: "\<exists>inner. trace retention_after = trace retention_world @ [LockAcquire ''retention'']
                        @ inner @ [LockRelease ''retention''] \<and>
                    (\<forall>ev \<in> set inner. is_purge_event ev)"
    using purgeOldDumps_serialized[where maximumSizeBytes = 1000 and fuel = "Suc 0"
        and env = demo_env and storageRoot = "''/data''" and w = retention_world
        and w' = retention_after and r = "Inr ()", THEN conjunct1] q run
    by blast
  have kl: "keeps_retention_lock demo_env"
    by (simp add: keeps_retention_lock_def demo_env_def)
  note excl = purgeOldDumps_serialized[where env = demo_env and v = retention_world
      and calls = two_calls and schedule = "[0, Suc 0]", THEN conjunct2, rule_format, OF kl]
  have pcs: "pcs (interleave demo_env two_calls [0, Suc 0] retention_world) = [Measure, Start]"
    by (simp add: interleave_two)
  have in0: "in_critical_section (pcs (interleave demo_env two_calls [0, Suc 0] retention_world) ! 0)"
    by (simp add: interleave_two in_critical_section_def)
  have len: "(0::nat) < length two_calls" "Suc 0 < length two_calls"
    by (simp_all add: two_calls_def)
  have out1: "\<not> in_critical_section (pcs (interleave demo_env two_calls [0, Suc 0] retention_world) ! Suc 0)"
  proof
    assume "in_critical_section (pcs (interleave demo_env two_calls [0, Suc 0] retention_world) ! Suc 0)"
    with excl[THEN conjunct2, rule_format, of 0 "Suc 0"] len in0 have "(0::nat) = Suc 0" by blast
    then show False by simp
  qed
  have ser: "serialized (journal (interleave demo_env two_calls [0, Suc 0] retention_world))"
    using excl by (rule conjunct1)
  show ?thesis
    by (intro conjI q run p1 kl pcs in0 out1 ser)
qed

end
